theory Spec2Isabelle
  imports Complex_Main "HOL-Library.Log_Nat" "HOL-Library.Multiset"
begin

section \<open>The memory game: data\<close>

text \<open>
  The component \<^verbatim>\<open>MemoryGame\<close> of the repository, embedded function by function.
  Line numbers refer to the component's source file.
\<close>

datatype GameMode = Normal | Chrono

datatype Difficulty = Facile | Moyen | Difficile | Extreme

text \<open>The six icon components of \<^verbatim>\<open>ICONS\<close>; two cards match when their icons are identical.\<close>

datatype Icon = Heart | Star | Sun | Moon | Cloud | Flower2

text \<open>The values of \<^verbatim>\<open>gameState\<close>.\<close>

datatype Phase = Setup | Preview | Playing | Finished

text \<open>A card (type \<^verbatim>\<open>MemoryCard\<close>, lines 16-21); its field \<^verbatim>\<open>id\<close> is \<open>cardId\<close> here.\<close>

record MemoryCard =
  cardId :: nat
  icon :: Icon
  color :: string
  isMatched :: bool

text \<open>
  An entry of the best-score table (type \<^verbatim>\<open>Score\<close>, lines 23-28). Its fields \<^verbatim>\<open>mode\<close>,
  \<^verbatim>\<open>difficulty\<close>, \<^verbatim>\<open>score\<close> and \<^verbatim>\<open>time\<close> carry the prefix \<open>s_\<close>, the component having
  state variables of the same names; a \<^verbatim>\<open>time\<close> that is \<^verbatim>\<open>undefined\<close> is \<open>None\<close>.
\<close>

record Score =
  s_mode :: GameMode
  s_difficulty :: Difficulty
  s_score :: rat
  s_time :: "int option"

record config =
  pairs :: nat
  time :: nat
  baseScore :: nat

fun DIFFICULTY_CONFIG :: "Difficulty \<Rightarrow> config" where
  "DIFFICULTY_CONFIG Facile = \<lparr>pairs = 6, time = 120, baseScore = 100\<rparr>"
| "DIFFICULTY_CONFIG Moyen = \<lparr>pairs = 8, time = 90, baseScore = 200\<rparr>"
| "DIFFICULTY_CONFIG Difficile = \<lparr>pairs = 10, time = 60, baseScore = 300\<rparr>"
| "DIFFICULTY_CONFIG Extreme = \<lparr>pairs = 12, time = 45, baseScore = 400\<rparr>"

definition ICONS :: "Icon list" where
  "ICONS = [Heart, Star, Sun, Moon, Cloud, Flower2]"

definition COLORS :: "string list" where
  "COLORS = [''text-rose-400'', ''text-amber-400'', ''text-yellow-400'',
             ''text-purple-400'', ''text-sky-400'', ''text-emerald-400'']"

section \<open>Deck creation\<close>

text \<open>
  The loop of \<^verbatim>\<open>createCards\<close> (lines 51-55): iteration \<open>i\<close> pushes the two cards of pair \<open>i\<close>.
\<close>

function pushPairs :: "nat \<Rightarrow> nat \<Rightarrow> MemoryCard list \<Rightarrow> MemoryCard list" where
  "pushPairs i n cards =
     (if i < n then
        pushPairs (i + 1) n
          (cards @
            [\<lparr>cardId = i * 2, icon = ICONS ! (i mod length ICONS),
              color = COLORS ! (i mod length COLORS), isMatched = False\<rparr>,
             \<lparr>cardId = i * 2 + 1, icon = ICONS ! (i mod length ICONS),
              color = COLORS ! (i mod length COLORS), isMatched = False\<rparr>])
      else cards)"
  by pat_completeness auto
termination
  by (relation "measure (\<lambda>(i, n, cards). n - i)") auto

declare pushPairs.simps [simp del]

text \<open>
  \<^verbatim>\<open>cards.sort(() => Math.random() - 0.5)\<close> (line 57) rearranges the array in an order that the
  random draws decide. The order is a parameter: \<open>order ! k\<close> is the position, before the
  sort, of the card that ends at position \<open>k\<close>. An order the sort can produce is a
  permutation of the positions.
\<close>

definition sortRandom :: "nat list \<Rightarrow> 'a list \<Rightarrow> 'a list" where
  "sortRandom order xs = map (\<lambda>k. xs ! k) order"

definition isPermutation :: "nat list \<Rightarrow> nat \<Rightarrow> bool" where
  "isPermutation order n \<longleftrightarrow> sort order = [0..<n]"

definition createCards :: "Difficulty \<Rightarrow> nat list \<Rightarrow> MemoryCard list" where
  "createCards difficulty order =
     sortRandom order (pushPairs 0 (pairs (DIFFICULTY_CONFIG difficulty)) [])"

section \<open>Numbers\<close>

text \<open>
  Numbers of the source are IEEE 754 double-precision values. Counters, indices and
  seconds stay far below \<open>2 ^ 53\<close>, where doubles are the integers themselves, and are
  \<open>nat\<close> and \<open>int\<close> here. Scores are computed with a division, whose result is rounded:
  \<open>roundDouble q\<close> is the double nearest to the rational \<open>q\<close> (53 significant bits, ties
  to the even significand). The exponent range is not modelled: every value below is
  between \<open>2 ^ -1022\<close> and \<open>2 ^ 1024\<close> in magnitude, or zero.
\<close>

definition pow2 :: "int \<Rightarrow> rat" where
  "pow2 e = (if 0 \<le> e then 2 ^ nat e else 1 / 2 ^ nat (- e))"

text \<open>The exponent \<open>e\<close> with \<open>2 ^ e \<le> q < 2 ^ (e + 1)\<close>, for \<open>q > 0\<close>.\<close>

definition ilog2 :: "rat \<Rightarrow> int" where
  "ilog2 q =
     (let e = bitlen (fst (quotient_of q)) - bitlen (snd (quotient_of q))
      in if pow2 e \<le> q then e else e - 1)"

definition roundHalfEven :: "rat \<Rightarrow> int" where
  "roundHalfEven r =
     (let n = \<lfloor>r\<rfloor>; f = r - of_int n
      in if f < 1 / 2 then n else if 1 / 2 < f then n + 1 else if even n then n else n + 1)"

definition roundDouble :: "rat \<Rightarrow> rat" where
  "roundDouble q =
     (if q = 0 then 0
      else let ulp = pow2 (ilog2 \<bar>q\<bar> - 52)
           in sgn q * of_int (roundHalfEven (\<bar>q\<bar> / ulp)) * ulp)"

section \<open>Score\<close>

text \<open>\<^verbatim>\<open>calculateScore\<close> (lines 60-66); each arithmetic operation rounds its result.\<close>

definition calculateScore :: "GameMode \<Rightarrow> Difficulty \<Rightarrow> nat \<Rightarrow> int \<Rightarrow> rat" where
  "calculateScore mode difficulty matches timeLeft =
     (let baseScore = of_nat (baseScore (DIFFICULTY_CONFIG difficulty));
          time = of_nat (time (DIFFICULTY_CONFIG difficulty));
          matchScore = roundDouble (of_nat matches * baseScore)
      in if mode = Normal then matchScore
         else let timeBonus =
                    of_int \<lfloor>roundDouble
                      (roundDouble (roundDouble (of_int timeLeft / time) * baseScore) *
                       of_nat matches)\<rfloor>
              in roundDouble (matchScore + timeBonus))"

text \<open>
  The score as the specification words it, in exact arithmetic:
  \<open>matchScore = matchedPairCount \<times> baseScorePerPair\<close>, and in chrono mode
  \<open>timeBonus = floor ((timeRemaining / timeLimitSeconds) \<times> baseScorePerPair \<times> matchedPairCount)\<close>.
\<close>

definition specScore :: "GameMode \<Rightarrow> Difficulty \<Rightarrow> nat \<Rightarrow> int \<Rightarrow> rat" where
  "specScore mode difficulty m t =
     (let b = of_nat (baseScore (DIFFICULTY_CONFIG difficulty));
          T = of_nat (time (DIFFICULTY_CONFIG difficulty));
          matchScore = of_nat m * b
      in if mode = Normal then matchScore
         else matchScore + of_int \<lfloor>(of_int t / T) * b * of_nat m\<rfloor>)"

section \<open>Component state\<close>

text \<open>
  The values of the component's \<^verbatim>\<open>useState\<close> hooks (lines 69-78). A function created
  during a render reads the values of that render: a callback that runs later still
  sees them, whatever the state has become meanwhile.
\<close>

record render =
  gameState :: Phase
  mode :: GameMode
  difficulty :: Difficulty
  cards :: "MemoryCard list"
  flippedIndexes :: "nat list"
  matches :: nat
  isChecking :: bool
  timeLeft :: int
  score :: rat
  bestScores :: "Score list"

text \<open>
  The callbacks that \<^verbatim>\<open>handleCardClick\<close> hands to \<^verbatim>\<open>setTimeout\<close> (lines 165 and 182). The
  first one carries the render it was created in and the two indices it compares.
\<close>

datatype timeout = MatchTimeout render nat nat | MismatchTimeout

text \<open>
  The application: the current values of the hooks, the timeouts not yet run, the table
  last handed to \<^verbatim>\<open>localStorage.setItem\<close> (line 132; its serialisation is not modelled),
  and the notifications shown (\<open>True\<close> for the win message).
\<close>

record app = render +
  timeouts :: "timeout list"
  persisted :: "Score list option"
  toasts :: "bool list"

datatype error = TypeError | SyntaxError

definition initialState :: app where
  "initialState =
     \<lparr>gameState = Setup, mode = Normal, difficulty = Facile, cards = [], flippedIndexes = [],
      matches = 0, isChecking = False, timeLeft = 0, score = 0, bestScores = [],
      timeouts = [], persisted = None, toasts = []\<rparr>"

text \<open>
  The effect run once after mounting (lines 80-85). \<open>stored\<close> is what
  \<^verbatim>\<open>localStorage.getItem\<close> returns (\<open>None\<close> for \<^verbatim>\<open>null\<close>); \<open>parse\<close> stands for \<^verbatim>\<open>JSON.parse\<close>,
  which throws a \<^verbatim>\<open>SyntaxError\<close> on a text that is not JSON. A text that parses to a
  value of another shape than a table is outside the model.
\<close>

definition loadBestScores ::
  "(string \<Rightarrow> error + Score list) \<Rightarrow> string option \<Rightarrow> app \<Rightarrow> error + app" where
  "loadBestScores parse stored s =
     (case stored of
        None \<Rightarrow> Inr s
      | Some storedBestScores \<Rightarrow>
          if storedBestScores = [] then Inr s
          else (case parse storedBestScores of
                  Inl e \<Rightarrow> Inl e
                | Inr table \<Rightarrow> Inr (s\<lparr>bestScores := table\<rparr>)))"

section \<open>Starting and ending a game\<close>

text \<open>\<^verbatim>\<open>startGame\<close> (lines 102-111); \<open>order\<close> is the outcome of the shuffle.\<close>

definition startGame :: "nat list \<Rightarrow> app \<Rightarrow> app" where
  "startGame order s =
     (let newCards = createCards (difficulty s) order
      in s\<lparr>cards := newCards,
           flippedIndexes := [0..<length newCards],
           matches := 0,
           isChecking := False,
           timeLeft := (if mode s = Chrono then int (time (DIFFICULTY_CONFIG (difficulty s))) else 0),
           gameState := Preview,
           score := 0\<rparr>)"

text \<open>\<^verbatim>\<open>Array.prototype.findIndex\<close>: the first index whose element satisfies \<open>P\<close>, or \<open>-1\<close>.\<close>

fun findIndex :: "('a \<Rightarrow> bool) \<Rightarrow> 'a list \<Rightarrow> int" where
  "findIndex P [] = - 1"
| "findIndex P (x # xs) =
     (if P x then 0 else let k = findIndex P xs in if k = - 1 then - 1 else k + 1)"

text \<open>
  \<^verbatim>\<open>endGame\<close> (lines 113-144). \<open>r\<close> is the render in which this \<^verbatim>\<open>endGame\<close> was created: its
  \<^verbatim>\<open>mode\<close>, \<^verbatim>\<open>difficulty\<close>, \<^verbatim>\<open>matches\<close>, \<^verbatim>\<open>timeLeft\<close> and \<^verbatim>\<open>bestScores\<close> are the ones read; \<open>s\<close> is
  the state that the setters update.
\<close>

definition endGame :: "render \<Rightarrow> bool \<Rightarrow> app \<Rightarrow> app" where
  "endGame r isWin s =
     (let finalScore = calculateScore (mode r) (difficulty r) (matches r) (timeLeft r);
          entry = \<lparr>s_mode = mode r, s_difficulty = difficulty r, s_score = finalScore,
                   s_time = (if mode r = Chrono then Some (timeLeft r) else None)\<rparr>;
          newBestScores = bestScores r;
          scoreIndex =
            findIndex (\<lambda>e. s_mode e = mode r \<and> s_difficulty e = difficulty r) newBestScores;
          s1 = s\<lparr>gameState := Finished, score := finalScore\<rparr>;
          s2 = (if scoreIndex = - 1 \<or> s_score (newBestScores ! nat scoreIndex) < finalScore
                then let updated =
                           (if scoreIndex \<noteq> - 1 then newBestScores[nat scoreIndex := entry]
                            else newBestScores @ [entry])
                     in s1\<lparr>bestScores := updated, persisted := Some updated\<rparr>
                else s1)
      in s2\<lparr>toasts := toasts s2 @ [isWin]\<rparr>)"

text \<open>
  The entry that \<^verbatim>\<open>endGame\<close> builds (lines 122-127 and 129), from the render it reads.
\<close>

definition finalEntry :: "render \<Rightarrow> Score" where
  "finalEntry r =
     \<lparr>s_mode = mode r, s_difficulty = difficulty r,
      s_score = calculateScore (mode r) (difficulty r) (matches r) (timeLeft r),
      s_time = (if mode r = Chrono then Some (timeLeft r) else None)\<rparr>"

text \<open>
  The update of the table as the specification words it: look up the entry of the
  mode and difficulty; where there is none, add the new entry; where its score is
  strictly below the new score, put the new entry in its place; otherwise leave the
  table as it is.
\<close>

fun specUpdate :: "Score list \<Rightarrow> Score \<Rightarrow> Score list" where
  "specUpdate [] e = [e]"
| "specUpdate (x # xs) e =
     (if s_mode x = s_mode e \<and> s_difficulty x = s_difficulty e
      then (if s_score x < s_score e then e # xs else x # xs)
      else x # specUpdate xs e)"

section \<open>Clicking a card\<close>

text \<open>
  \<^verbatim>\<open>handleCardClick\<close> (lines 146-188). Reading a property of \<^verbatim>\<open>cards[i]\<close> for an index
  outside the array throws a \<^verbatim>\<open>TypeError\<close>; the result then holds the state as the
  setters called before the throw have left it.
\<close>

definition handleCardClick :: "app \<Rightarrow> nat \<Rightarrow> error \<times> app + app" where
  "handleCardClick s clickedIndex =
     (if isChecking s then Inr s
      else if \<not> clickedIndex < length (cards s) then Inl (TypeError, s)
      else if isMatched (cards s ! clickedIndex) \<or> clickedIndex \<in> set (flippedIndexes s) \<or>
              length (flippedIndexes s) = 2
      then Inr s
      else
        let newFlipped = flippedIndexes s @ [clickedIndex];
            s1 = s\<lparr>flippedIndexes := newFlipped\<rparr>
        in if length newFlipped = 2 then
             let s2 = s1\<lparr>isChecking := True\<rparr>;
                 firstIndex = newFlipped ! 0;
                 secondIndex = newFlipped ! 1
             in if \<not> firstIndex < length (cards s) then Inl (TypeError, s2)
                else if icon (cards s ! firstIndex) = icon (cards s ! secondIndex)
                then Inr (s2\<lparr>timeouts := timeouts s2 @
                                [MatchTimeout (render.truncate s) firstIndex secondIndex]\<rparr>)
                else Inr (s2\<lparr>timeouts := timeouts s2 @ [MismatchTimeout]\<rparr>)
           else Inr s1)"

text \<open>The \<^verbatim>\<open>onClick\<close> of a card (line 285): the click counts only while playing.\<close>

definition onCardClick :: "app \<Rightarrow> nat \<Rightarrow> error \<times> app + app" where
  "onCardClick s index = (if gameState s = Playing then handleCardClick s index else Inr s)"

text \<open>
  A timeout runs (lines 166-179 and 183-184). The cards are rebuilt from those of the
  render \<open>r\<close>; \<^verbatim>\<open>setMatches\<close> gets an updater, which reads the current count; the test
  \<^verbatim>\<open>newMatches === cards.length / 2\<close> holds exactly when twice \<open>newMatches\<close> is the length.
\<close>

fun runTimeout :: "timeout \<Rightarrow> app \<Rightarrow> app" where
  "runTimeout (MatchTimeout r firstIndex secondIndex) s =
     (let s1 = s\<lparr>cards :=
                   map (\<lambda>(index, card).
                          if index = firstIndex \<or> index = secondIndex
                          then card\<lparr>isMatched := True\<rparr> else card)
                       (enumerate 0 (cards r)),
                 flippedIndexes := []\<rparr>;
          newMatches = matches s1 + 1;
          s2 = (if 2 * newMatches = length (cards r) then endGame r True s1 else s1)
      in s2\<lparr>matches := newMatches, isChecking := False\<rparr>)"
| "runTimeout MismatchTimeout s = s\<lparr>flippedIndexes := [], isChecking := False\<rparr>"

section \<open>Events\<close>

text \<open>
  The timer effect (lines 87-100) runs after a render in which \<^verbatim>\<open>timeLeft\<close>, \<^verbatim>\<open>gameState\<close>
  or \<^verbatim>\<open>mode\<close> has changed. Its first two branches arm the preview timer and the
  countdown, which are the events \<open>PreviewTimeout\<close> and \<open>Tick\<close> below; its last branch
  ends the game with the values of the render that has just happened.
\<close>

definition timerEffect :: "app \<Rightarrow> app" where
  "timerEffect s =
     (if gameState s = Preview then s
      else if gameState s = Playing \<and> mode s = Chrono \<and> timeLeft s > 0 then s
      else if timeLeft s = 0 \<and> mode s = Chrono \<and> gameState s = Playing
      then endGame (render.truncate s) False s
      else s)"

definition afterRender :: "app \<Rightarrow> app \<Rightarrow> app" where
  "afterRender prev s =
     (if (timeLeft s, gameState s, mode s) \<noteq> (timeLeft prev, gameState prev, mode prev)
      then timerEffect s else s)"

text \<open>
  What can happen to the mounted component: the two selectors and the start button of
  the setup screen, the two timers of the effect, a click on a card of the grid, a
  pending timeout running, and the replay button of the finished screen.
\<close>

datatype event =
    SelectMode GameMode
  | SelectDifficulty Difficulty
  | StartGame "nat list"
  | PreviewTimeout
  | Tick
  | CardClick nat
  | Timeout nat
  | Rejouer

text \<open>The handler of an event; \<open>None\<close> where the event cannot occur in the state.\<close>

fun handle :: "event \<Rightarrow> app \<Rightarrow> app option" where
  "handle (SelectMode m) s = (if gameState s = Setup then Some (s\<lparr>mode := m\<rparr>) else None)"
| "handle (SelectDifficulty d) s =
     (if gameState s = Setup then Some (s\<lparr>difficulty := d\<rparr>) else None)"
| "handle (StartGame order) s =
     (if gameState s = Setup \<and>
         isPermutation order (2 * pairs (DIFFICULTY_CONFIG (difficulty s)))
      then Some (startGame order s) else None)"
| "handle PreviewTimeout s =
     (if gameState s = Preview then Some (s\<lparr>gameState := Playing, flippedIndexes := []\<rparr>)
      else None)"
| "handle Tick s =
     (if gameState s = Playing \<and> mode s = Chrono \<and> timeLeft s > 0
      then Some (s\<lparr>timeLeft := timeLeft s - 1\<rparr>) else None)"
| "handle (CardClick index) s =
     (if gameState s \<noteq> Setup \<and> index < length (cards s)
      then Some (case onCardClick s index of Inl (e, s') \<Rightarrow> s' | Inr s' \<Rightarrow> s')
      else None)"
| "handle (Timeout k) s =
     (if k < length (timeouts s)
      then Some (runTimeout (timeouts s ! k)
                   (s\<lparr>timeouts := take k (timeouts s) @ drop (Suc k) (timeouts s)\<rparr>))
      else None)"
| "handle Rejouer s = (if gameState s = Finished then Some (s\<lparr>gameState := Setup\<rparr>) else None)"

definition dispatch :: "event \<Rightarrow> app \<Rightarrow> app option" where
  "dispatch e s = map_option (afterRender s) (handle e s)"

fun run :: "event list \<Rightarrow> app \<Rightarrow> app option" where
  "run [] s = Some s"
| "run (e # es) s = (case dispatch e s of None \<Rightarrow> None | Some s' \<Rightarrow> run es s')"

text \<open>The states the component can be in, whatever table was loaded at mounting.\<close>

inductive reachable :: "app \<Rightarrow> bool" where
  mounted: "reachable (initialState\<lparr>bestScores := table\<rparr>)"
| step: "reachable s \<Longrightarrow> dispatch e s = Some s' \<Longrightarrow> reachable s'"

text \<open>
  The events in which \<^verbatim>\<open>endGame\<close> is called, with the render it reads: the tick that
  brings the countdown to zero (the effect then calls the \<^verbatim>\<open>endGame\<close> of the render with
  no time left, line 97), and the match timeout that completes the deck of its render
  (line 175).
\<close>

fun gameEnd :: "event \<Rightarrow> app \<Rightarrow> render option" where
  "gameEnd Tick s =
     (if gameState s = Playing \<and> mode s = Chrono \<and> timeLeft s = 1
      then Some (render.truncate (s\<lparr>timeLeft := 0\<rparr>)) else None)"
| "gameEnd (Timeout k) s =
     (if k < length (timeouts s)
      then (case timeouts s ! k of
              MatchTimeout r i j \<Rightarrow>
                if 2 * (matches s + 1) = length (cards r) then Some r else None
            | MismatchTimeout \<Rightarrow> None)
      else None)"
| "gameEnd e s = None"

text \<open>
  Timers run in the order in which they fall due. The preview timer is set for 2000 ms
  when a game starts; a timeout of \<^verbatim>\<open>handleCardClick\<close> is set for 500 or 1000 ms, and none
  is set during the preview. A timeout that is pending in the preview was therefore set
  before the game started and runs before the preview ends. \<open>reachableTimed\<close> are the
  states reached under this order, after mounting with a table of distinct keys; the
  order of all other events is left open.
\<close>

inductive reachableTimed :: "app \<Rightarrow> bool" where
  mountedTimed: "distinct (map (\<lambda>e. (s_mode e, s_difficulty e)) table) \<Longrightarrow>
     reachableTimed (initialState\<lparr>bestScores := table\<rparr>)"
| stepTimed: "reachableTimed s \<Longrightarrow> dispatch e s = Some s' \<Longrightarrow>
     (e = PreviewTimeout \<longrightarrow> timeouts s = []) \<Longrightarrow> reachableTimed s'"

text \<open>
  \<open>run\<close> under that order: the preview does not end while a timeout is pending.
\<close>

fun runTimed :: "event list \<Rightarrow> app \<Rightarrow> app option" where
  "runTimed [] s = Some s"
| "runTimed (e # es) s =
     (if e = PreviewTimeout \<and> timeouts s \<noteq> [] then None
      else (case dispatch e s of None \<Rightarrow> None | Some s' \<Rightarrow> runTimed es s'))"

section \<open>Example games\<close>

text \<open>
  A whole game in normal mode at the first difficulty, with the deck left in the order
  of its creation (cards \<open>2i\<close> and \<open>2i + 1\<close> form pair \<open>i\<close>): every pair is found at the
  first try, and each match timeout runs before the next click.
\<close>

definition winFacile :: "event list" where
  "winFacile =
     [StartGame [0..<12], PreviewTimeout,
      CardClick 0, CardClick 1, Timeout 0, CardClick 2, CardClick 3, Timeout 0,
      CardClick 4, CardClick 5, Timeout 0, CardClick 6, CardClick 7, Timeout 0,
      CardClick 8, CardClick 9, Timeout 0, CardClick 10, CardClick 11, Timeout 0]"

text \<open>The setup screen after that game and a click on the replay button.\<close>

definition playedFacile :: app where
  "playedFacile = the (run (winFacile @ [Rejouer]) initialState)"

text \<open>A game at the first difficulty that has just left the preview.\<close>

definition playingFacile :: app where
  "playingFacile = the (run [StartGame [0..<12], PreviewTimeout] initialState)"

text \<open>
  A chrono game at the last difficulty (45 seconds). The first pair is found; the
  second pair is turned up in the last second, less than 500 ms before the countdown
  reaches zero, so its match timeout is still pending when the game is lost. The player
  clicks the replay button and the start button before that timeout runs; it then runs
  in the preview of the new game.
\<close>

definition lossThenReplay :: "event list" where
  "lossThenReplay =
     [SelectMode Chrono, SelectDifficulty Extreme, StartGame [0..<24], PreviewTimeout,
      CardClick 0, CardClick 1, Timeout 0] @ replicate 44 Tick @
     [CardClick 2, CardClick 3, Tick, Rejouer, StartGame (rev [0..<24]), Timeout 0]"

text \<open>
  A chrono game at the first difficulty (120 seconds). Five pairs are found at once; the
  last pair is turned up in the last second, and the countdown reaches zero before its
  match timeout runs. \<open>raceFacile\<close> ends there, with that timeout pending.
\<close>

definition raceFacile :: "event list" where
  "raceFacile =
     [SelectMode Chrono, StartGame [0..<12], PreviewTimeout,
      CardClick 0, CardClick 1, Timeout 0, CardClick 2, CardClick 3, Timeout 0,
      CardClick 4, CardClick 5, Timeout 0, CardClick 6, CardClick 7, Timeout 0,
      CardClick 8, CardClick 9, Timeout 0] @ replicate 119 Tick @
     [CardClick 10, CardClick 11, Tick]"

section \<open>Invariants\<close>

text \<open>Outside the preview: at most two flipped indices, distinct, all in the deck.\<close>

definition flippedOk :: "app \<Rightarrow> bool" where
  "flippedOk s \<longleftrightarrow>
     length (flippedIndexes s) \<le> 2 \<and> set (flippedIndexes s) \<subseteq> {..<length (cards s)} \<and>
     distinct (flippedIndexes s)"

text \<open>
  The keys of the table are distinct, and so are those of the table of every render
  that a pending timeout carries.
\<close>

definition keysOk :: "app \<Rightarrow> bool" where
  "keysOk s \<longleftrightarrow>
     distinct (map (\<lambda>e. (s_mode e, s_difficulty e)) (bestScores s)) \<and>
     (\<forall>r i j. MatchTimeout r i j \<in> set (timeouts s) \<longrightarrow>
        distinct (map (\<lambda>e. (s_mode e, s_difficulty e)) (bestScores r)))"

text \<open>The deck that a match timeout installs (lines 167-169), as a function of its own.\<close>

definition markMatched :: "nat \<Rightarrow> nat \<Rightarrow> MemoryCard list \<Rightarrow> MemoryCard list" where
  "markMatched i j cs =
     map (\<lambda>(index, card). if index = i \<or> index = j then card\<lparr>isMatched := True\<rparr> else card)
       (enumerate 0 cs)"

text \<open>
  The states reached when no game is started while a timeout is pending, and what holds
  in them: the matched cards are twice the matched pairs; at most one timeout is
  pending, and only during a check; a pending match timeout carries the current deck
  and two distinct unmatched cards of it; outside the preview the flipped cards are
  unmatched cards of the deck.
\<close>

inductive reachableFresh :: "app \<Rightarrow> bool" where
  mountedFresh: "reachableFresh (initialState\<lparr>bestScores := table\<rparr>)"
| stepFresh: "reachableFresh s \<Longrightarrow> dispatch e s = Some s' \<Longrightarrow>
     (\<forall>order. e = StartGame order \<longrightarrow> timeouts s = []) \<Longrightarrow> reachableFresh s'"

definition pairsOk :: "app \<Rightarrow> bool" where
  "pairsOk s \<longleftrightarrow>
     length (filter isMatched (cards s)) = 2 * matches s \<and>
     length (timeouts s) \<le> 1 \<and>
     (\<not> isChecking s \<longrightarrow> timeouts s = []) \<and>
     (\<forall>r i j. MatchTimeout r i j \<in> set (timeouts s) \<longrightarrow>
        cards r = cards s \<and> i < length (cards s) \<and> j < length (cards s) \<and> i \<noteq> j \<and>
        \<not> isMatched (cards s ! i) \<and> \<not> isMatched (cards s ! j)) \<and>
     (gameState s \<noteq> Preview \<longrightarrow>
        (\<forall>i \<in> set (flippedIndexes s). i < length (cards s) \<and> \<not> isMatched (cards s ! i)))"

text \<open>
  What holds of the render of a pending match timeout: its deck is a whole deck; in
  chrono mode its time left is between one second and the time limit; and either the
  game goes on and the render has the current table, count, mode and difficulty, or the
  countdown has ended the game since and the table is the one which that end has left,
  or a new game has been started and is in its preview.
\<close>

definition pendingOk :: "render \<Rightarrow> app \<Rightarrow> bool" where
  "pendingOk r s \<longleftrightarrow>
     12 \<le> length (cards r) \<and> length (cards r) \<le> 24 \<and>
     (mode r = Chrono \<longrightarrow>
        1 \<le> timeLeft r \<and> timeLeft r \<le> int (time (DIFFICULTY_CONFIG (difficulty r)))) \<and>
     (gameState s = Playing \<and> bestScores r = bestScores s \<and> matches r = matches s \<and>
        mode r = mode s \<and> difficulty r = difficulty s \<or>
      (gameState s = Finished \<or> gameState s = Setup) \<and> mode r = Chrono \<and>
        matches r = matches s \<and>
        bestScores s = specUpdate (bestScores r) (finalEntry (r\<lparr>timeLeft := 0\<rparr>)) \<or>
      gameState s = Preview \<and> matches s = 0)"

text \<open>
  What holds in the states of \<open>reachableTimed\<close>: at most one timeout is pending, and
  none while playing outside a check; in chrono mode, during the preview and the play,
  the time left is between one second and the time limit; the deck is empty or a whole
  deck; and the render of every pending match timeout is as \<open>pendingOk\<close> says.
\<close>

definition pendingFew :: "app \<Rightarrow> bool" where
  "pendingFew s \<longleftrightarrow>
     length (timeouts s) \<le> 1 \<and>
     (gameState s = Playing \<and> \<not> isChecking s \<longrightarrow> timeouts s = [])"

definition clockOk :: "app \<Rightarrow> bool" where
  "clockOk s \<longleftrightarrow>
     ((gameState s = Preview \<or> gameState s = Playing) \<and> mode s = Chrono \<longrightarrow>
        1 \<le> timeLeft s \<and> timeLeft s \<le> int (time (DIFFICULTY_CONFIG (difficulty s))))"

definition deckOk :: "app \<Rightarrow> bool" where
  "deckOk s \<longleftrightarrow> cards s = [] \<or> 12 \<le> length (cards s) \<and> length (cards s) \<le> 24"

definition pendingAllOk :: "app \<Rightarrow> bool" where
  "pendingAllOk s \<longleftrightarrow> (\<forall>r i j. MatchTimeout r i j \<in> set (timeouts s) \<longrightarrow> pendingOk r s)"

definition timedOk :: "app \<Rightarrow> bool" where
  "timedOk s \<longleftrightarrow> pendingFew s \<and> clockOk s \<and> deckOk s \<and> pendingAllOk s"

section \<open>Rounding is exact on the integers below \<open>2 ^ 53\<close>\<close>

lemma roundHalfEven_of_int: "roundHalfEven (of_int n) = n"
  by (simp add: roundHalfEven_def)

lemma ilog2_of_int:
  assumes "0 < k"
  shows "ilog2 (of_int k) = bitlen k - 1"
proof -
  have b: "2 ^ nat (bitlen k - 1) \<le> k" using bitlen_bounds [OF assms] by simp
  have p: "0 \<le> bitlen k - 1" using assms by (simp add: bitlen_alt_def)
  have one: "bitlen 1 = 1" by (simp add: bitlen_alt_def)
  have "(2::rat) ^ nat (bitlen k - 1) = of_int (2 ^ nat (bitlen k - 1))" by simp
  also have "\<dots> \<le> of_int k" using b by (simp only: of_int_le_iff)
  finally have "pow2 (bitlen k - 1) \<le> of_int k" using p by (simp add: pow2_def)
  then show ?thesis by (simp add: ilog2_def Let_def one)
qed

lemma bitlen_le_53:
  assumes "0 < k" "k < 2 ^ 53"
  shows "bitlen k \<le> 53"
proof (rule ccontr)
  assume "\<not> bitlen k \<le> 53"
  then have "53 \<le> nat (bitlen k - 1)" by simp
  then have "(2::int) ^ 53 \<le> 2 ^ nat (bitlen k - 1)" by (rule power_increasing) simp
  also have "\<dots> \<le> k" using bitlen_bounds [OF assms(1)] by simp
  finally show False using assms(2) by simp
qed

lemma roundDouble_of_int_pos:
  assumes "0 < k" "k < 2 ^ 53"
  shows "roundDouble (of_int k) = of_int k"
proof -
  define d where "d = nat (53 - bitlen k)"
  have le: "bitlen k \<le> 53" using assms by (rule bitlen_le_53)
  have e: "ilog2 \<bar>of_int k\<bar> = bitlen k - 1" using assms(1) ilog2_of_int [of k] by simp
  have u: "pow2 (ilog2 \<bar>of_int k\<bar> - 52) = 1 / 2 ^ d"
    using le by (auto simp: e pow2_def d_def)
  have "\<bar>of_int k :: rat\<bar> / (1 / 2 ^ d) = of_int (k * 2 ^ d)" using assms(1) by simp
  then have r: "roundHalfEven (\<bar>of_int k\<bar> / (1 / 2 ^ d)) = k * 2 ^ d"
    by (simp only: roundHalfEven_of_int)
  show ?thesis using assms(1) unfolding roundDouble_def Let_def u r by simp
qed

lemma roundDouble_of_nat:
  assumes "n < 2 ^ 53"
  shows "roundDouble (of_nat n) = of_nat n"
proof (cases "n = 0")
  case True
  then show ?thesis by (simp add: roundDouble_def)
next
  case False
  from assms have "int n < int (2 ^ 53)" by (simp only: of_nat_less_iff)
  then have "int n < 2 ^ 53" by simp
  with False roundDouble_of_int_pos [of "int n"] show ?thesis by simp
qed

section \<open>The score\<close>

text \<open>
  C9. In normal mode the score does not depend on the time left: for every difficulty
  and every count of matched pairs, two calls that differ in the time only return the
  same score, and that score is the count times the base score of the difficulty
  (as long as the product is an integer that a double holds exactly, below \<open>2 ^ 53\<close>).
\<close>

theorem calculateScore_normal:
  "calculateScore Normal d m t1 = calculateScore Normal d m t2 \<and>
   (m * baseScore (DIFFICULTY_CONFIG d) < 2 ^ 53 \<longrightarrow>
      calculateScore Normal d m t1 = of_nat (m * baseScore (DIFFICULTY_CONFIG d)))"
  using roundDouble_of_nat [of "m * baseScore (DIFFICULTY_CONFIG d)"]
  by (simp add: calculateScore_def)

theorem calculateScore_normal_witness:
  "6 * baseScore (DIFFICULTY_CONFIG Facile) < 2 ^ 53 \<and>
   calculateScore Normal Facile 6 120 = calculateScore Normal Facile 6 0 \<and>
   calculateScore Normal Facile 6 120 = 600"
  using calculateScore_normal [of Facile 6 120 0] by simp

text \<open>
  C3. In chrono mode the specification gives the score as the match score plus the floor
  of \<open>(timeRemaining / timeLimitSeconds) \<times> baseScorePerPair \<times> matchedPairCount\<close>. The
  code divides first, and the quotient is rounded: with three pairs matched and ten
  seconds left at the first difficulty, \<open>10 / 120\<close> becomes a double slightly below one
  twelfth, the product falls just short of 25, and the floor is 24. The code returns
  324 where the formula gives 325.
\<close>

theorem calculateScore_chrono_rounds:
  "calculateScore Chrono Facile 3 10 = 324 \<and> specScore Chrono Facile 3 10 = 325"
  by code_simp

text \<open>The two examples of the specification hold on the code.\<close>

lemma calculateScore_chrono_examples:
  "calculateScore Chrono Facile 6 120 = 1200 \<and> calculateScore Chrono Facile 3 0 = 300"
  by code_simp

section \<open>Bounds of the rounding and of the time bonus\<close>

text \<open>
  Rounding to a double is monotone at the powers of two: a power of two is its own
  double, so a number on one side of it is rounded to a number on the same side.
\<close>

lemma pow2_powi: "pow2 e = 2 powi e"
proof (cases "0 \<le> e")
  case True
  then show ?thesis by (simp add: pow2_def power_int_def)
next
  case False
  have "inverse (2::rat) ^ nat (- e) = 1 / 2 ^ nat (- e)"
    by (simp add: inverse_eq_divide power_one_over)
  with False show ?thesis by (simp only: pow2_def power_int_def if_False)
qed

lemma pow2_pos: "0 < pow2 e"
  by (simp add: pow2_powi)

lemma pow2_mono: "a \<le> b \<Longrightarrow> pow2 a \<le> pow2 b"
  by (simp add: pow2_powi power_int_increasing)

lemma pow2_strict_mono: "a < b \<Longrightarrow> pow2 a < pow2 b"
  by (simp add: pow2_powi power_int_strict_increasing)

lemma pow2_add: "pow2 (a + b) = pow2 a * pow2 b"
  by (simp add: pow2_powi power_int_add)

lemma pow2_shift:
  "pow2 e = 2 ^ 52 * pow2 (e - 52)" "pow2 (e + 1) = 2 ^ 53 * pow2 (e - 52)"
proof -
  have a: "pow2 52 = 2 ^ 52" "pow2 53 = 2 ^ 53" by (simp_all add: pow2_def)
  have "pow2 e = pow2 (52 + (e - 52))" by (rule arg_cong [where f = pow2]) simp
  then show "pow2 e = 2 ^ 52 * pow2 (e - 52)" by (simp only: pow2_add a)
  have "pow2 (e + 1) = pow2 (53 + (e - 52))" by (rule arg_cong [where f = pow2]) simp
  then show "pow2 (e + 1) = 2 ^ 53 * pow2 (e - 52)" by (simp only: pow2_add a)
qed

lemma pow2_of_bitlen:
  assumes "0 < a"
  shows "pow2 (bitlen a - 1) \<le> of_int a" "of_int a < pow2 (bitlen a)"
proof -
  from bitlen_bounds [OF assms] have l: "2 ^ nat (bitlen a - 1) \<le> a" and u: "a < 2 ^ nat (bitlen a)"
    by simp_all
  have p: "0 \<le> bitlen a - 1" using assms by (simp add: bitlen_alt_def)
  have "(of_int (2 ^ nat (bitlen a - 1)) :: rat) \<le> of_int a" using l by (simp only: of_int_le_iff)
  then show "pow2 (bitlen a - 1) \<le> of_int a" using p by (simp add: pow2_def)
  have "(of_int a :: rat) < of_int (2 ^ nat (bitlen a))" using u by (simp only: of_int_less_iff)
  then show "of_int a < pow2 (bitlen a)" using p by (simp add: pow2_def)
qed

lemma ilog2_bounds:
  assumes "0 < q"
  shows "pow2 (ilog2 q) \<le> q" "q < pow2 (ilog2 q + 1)"
proof -
  obtain a b where ab: "quotient_of q = (a, b)" by (cases "quotient_of q")
  then have b: "0 < b" by (rule quotient_of_denom_pos)
  from ab have q: "q = of_int a / of_int b" by (rule quotient_of_div)
  have a: "0 < a"
  proof (rule ccontr)
    assume "\<not> 0 < a"
    then have "(of_int a :: rat) \<le> 0" by simp
    then have "q \<le> 0" using b unfolding q by (simp add: divide_nonpos_pos)
    with assms show False by simp
  qed
  let ?e = "bitlen a - bitlen b"
  note A = pow2_of_bitlen [OF a] and B = pow2_of_bitlen [OF b]
  have up: "q < pow2 (?e + 1)"
  proof -
    have "of_int a / of_int b < pow2 (bitlen a) / pow2 (bitlen b - 1)"
      using a b A B pow2_pos [of "bitlen b - 1"] by (intro frac_less) simp_all
    also have "pow2 (bitlen a) = pow2 (?e + 1) * pow2 (bitlen b - 1)"
      by (simp flip: pow2_add)
    finally show ?thesis using pow2_pos [of "bitlen b - 1"] by (simp add: q)
  qed
  have lo: "pow2 (?e - 1) < q"
  proof -
    have "pow2 (bitlen a - 1) / pow2 (bitlen b) < of_int a / of_int b"
      using a b A B pow2_pos [of "bitlen a - 1"] by (intro frac_less2) simp_all
    moreover have "pow2 (bitlen a - 1) = pow2 (?e - 1) * pow2 (bitlen b)"
      by (simp flip: pow2_add)
    ultimately show ?thesis using pow2_pos [of "bitlen b"] by (simp add: q)
  qed
  have i: "ilog2 q = (if pow2 ?e \<le> q then ?e else ?e - 1)"
    by (simp add: ilog2_def Let_def ab)
  show "pow2 (ilog2 q) \<le> q" using lo by (simp add: i)
  show "q < pow2 (ilog2 q + 1)" using up by (auto simp: i)
qed

lemma roundHalfEven_bounds: "\<lfloor>r\<rfloor> \<le> roundHalfEven r" "roundHalfEven r \<le> \<lfloor>r\<rfloor> + 1"
  by (simp_all add: roundHalfEven_def Let_def)

lemma roundDouble_bounds:
  assumes "0 < q"
  shows "pow2 (ilog2 q) \<le> roundDouble q" "roundDouble q \<le> pow2 (ilog2 q + 1)"
proof -
  let ?e = "ilog2 q" and ?u = "pow2 (ilog2 q - 52)"
  let ?n = "roundHalfEven (q / ?u)"
  have u: "0 < ?u" by (rule pow2_pos)
  have e: "pow2 ?e = 2 ^ 52 * ?u" "pow2 (?e + 1) = 2 ^ 53 * ?u"
    by (rule pow2_shift)+
  from ilog2_bounds [OF assms] have "2 ^ 52 * ?u \<le> q" "q < 2 ^ 53 * ?u" by (simp_all only: e)
  then have y: "2 ^ 52 \<le> q / ?u" "q / ?u < 2 ^ 53" using u by (simp_all add: pos_le_divide_eq pos_divide_less_eq)
  have "(2::int) ^ 52 \<le> \<lfloor>q / ?u\<rfloor>" using y(1) by (simp add: le_floor_iff)
  then have n1: "2 ^ 52 \<le> ?n" using roundHalfEven_bounds(1) [of "q / ?u"] by linarith
  have "\<lfloor>q / ?u\<rfloor> < (2::int) ^ 53" using y(2) by (simp add: floor_less_iff)
  then have n2: "?n \<le> 2 ^ 53" using roundHalfEven_bounds(2) [of "q / ?u"] by linarith
  have r: "roundDouble q = of_int ?n * ?u" using assms by (simp add: roundDouble_def Let_def)
  have "(2::rat) ^ 52 \<le> of_int ?n" using n1 by (metis of_int_le_iff of_int_numeral of_int_power)
  then show "pow2 ?e \<le> roundDouble q" using u by (simp add: r e)
  have "(of_int ?n :: rat) \<le> 2 ^ 53" using n2 by (metis of_int_le_iff of_int_numeral of_int_power)
  then show "roundDouble q \<le> pow2 (?e + 1)" using u by (simp add: r e)
qed

lemma roundDouble_ge_pow2:
  assumes "pow2 k \<le> q"
  shows "pow2 k \<le> roundDouble q"
proof -
  have q: "0 < q" using assms pow2_pos [of k] by simp
  have "k \<le> ilog2 q"
  proof (rule ccontr)
    assume "\<not> k \<le> ilog2 q"
    then have "pow2 (ilog2 q + 1) \<le> pow2 k" by (intro pow2_mono) simp
    with ilog2_bounds(2) [OF q] assms show False by simp
  qed
  then have "pow2 k \<le> pow2 (ilog2 q)" by (rule pow2_mono)
  with roundDouble_bounds(1) [OF q] show ?thesis by simp
qed

lemma roundDouble_pow2: "roundDouble (pow2 k) = pow2 k"
proof -
  have p: "0 < pow2 k" by (rule pow2_pos)
  have "ilog2 (pow2 k) = k"
  proof -
    from ilog2_bounds [OF p] have 1: "pow2 (ilog2 (pow2 k)) \<le> pow2 k" and 2: "pow2 k < pow2 (ilog2 (pow2 k) + 1)"
      by simp_all
    have "ilog2 (pow2 k) \<le> k"
    proof (rule ccontr)
      assume "\<not> ilog2 (pow2 k) \<le> k"
      then have "pow2 k < pow2 (ilog2 (pow2 k))" by (intro pow2_strict_mono) simp
      with 1 show False by simp
    qed
    moreover have "k \<le> ilog2 (pow2 k)"
    proof (rule ccontr)
      assume "\<not> k \<le> ilog2 (pow2 k)"
      then have "pow2 (ilog2 (pow2 k) + 1) \<le> pow2 k" by (intro pow2_mono) simp
      with 2 show False by simp
    qed
    ultimately show ?thesis by simp
  qed
  moreover have s: "pow2 k = 2 ^ 52 * pow2 (k - 52)" by (rule pow2_shift)
  have "pow2 k / pow2 (k - 52) = 2 ^ 52" using pow2_pos [of "k - 52"] by (subst s) simp
  then have "pow2 k / pow2 (k - 52) = of_int (2 ^ 52)" by simp
  then have "roundHalfEven (pow2 k / pow2 (k - 52)) = 2 ^ 52" by (simp only: roundHalfEven_of_int)
  ultimately have "roundDouble (pow2 k) = of_int (2 ^ 52) * pow2 (k - 52)"
    using p by (simp add: roundDouble_def Let_def)
  also have "\<dots> = pow2 k" using s by simp
  finally show ?thesis .
qed

lemma roundDouble_le_pow2:
  assumes "0 < q" "q \<le> pow2 k"
  shows "roundDouble q \<le> pow2 k"
proof (cases "ilog2 q + 1 \<le> k")
  case True
  then have "pow2 (ilog2 q + 1) \<le> pow2 k" by (rule pow2_mono)
  with roundDouble_bounds(2) [OF assms(1)] show ?thesis by simp
next
  case False
  then have "pow2 k \<le> pow2 (ilog2 q)" by (intro pow2_mono) simp
  with ilog2_bounds(1) [OF assms(1)] assms(2) have "q = pow2 k" by simp
  then show ?thesis by (simp add: roundDouble_pow2)
qed

text \<open>The configuration of the four difficulties, in bounds.\<close>

lemma config_bounds:
  "100 \<le> baseScore (DIFFICULTY_CONFIG d)" "baseScore (DIFFICULTY_CONFIG d) \<le> 400"
  "45 \<le> time (DIFFICULTY_CONFIG d)" "time (DIFFICULTY_CONFIG d) \<le> 120"
  "6 \<le> pairs (DIFFICULTY_CONFIG d)" "pairs (DIFFICULTY_CONFIG d) \<le> 12"
  by (cases d; simp)+

text \<open>With no time left the chrono score is the match score.\<close>

lemma calculateScore_chrono_zero:
  assumes "m \<le> 12"
  shows "calculateScore Chrono d m 0 = of_nat (m * baseScore (DIFFICULTY_CONFIG d))"
proof -
  have "m * baseScore (DIFFICULTY_CONFIG d) \<le> 12 * 400"
    using assms config_bounds(2) [of d] by (rule mult_le_mono)
  then have "m * baseScore (DIFFICULTY_CONFIG d) < 2 ^ 53" by simp
  then have "roundDouble (of_nat (m * baseScore (DIFFICULTY_CONFIG d))) =
      of_nat (m * baseScore (DIFFICULTY_CONFIG d))" by (rule roundDouble_of_nat)
  moreover have "roundDouble 0 = 0" by (simp add: roundDouble_def)
  ultimately show ?thesis by (simp add: calculateScore_def)
qed

text \<open>
  With two pairs or more and one second or more left, the time bonus is at least one
  point, also after the three roundings of its computation: the quotient is at least
  \<open>2 ^ -7\<close>, its product with the base score at least \<open>2 ^ -1\<close>, and the product with the
  count at least 1.
\<close>

lemma calculateScore_chrono_bonus:
  assumes "2 \<le> m" "m \<le> 12" "1 \<le> t" "t \<le> int (time (DIFFICULTY_CONFIG d))"
  shows "calculateScore Chrono d m 0 < calculateScore Chrono d m t"
proof -
  let ?b = "of_nat (baseScore (DIFFICULTY_CONFIG d)) :: rat"
  let ?T = "of_nat (time (DIFFICULTY_CONFIG d)) :: rat"
  let ?q1 = "roundDouble (of_int t / ?T)"
  let ?q2 = "roundDouble (?q1 * ?b)"
  let ?q3 = "roundDouble (?q2 * of_nat m)"
  have b: "100 \<le> ?b" "?b \<le> 400"
    using config_bounds(1,2) [of d] by simp_all
  have T: "45 \<le> ?T" "?T \<le> 120"
    using config_bounds(3,4) [of d] by simp_all
  have m: "2 \<le> (of_nat m :: rat)" "(of_nat m :: rat) \<le> 12"
    using assms(1,2) by simp_all
  have "(of_int t :: rat) \<le> of_int (int (time (DIFFICULTY_CONFIG d)))"
    using assms(4) by (simp only: of_int_le_iff)
  then have t: "1 \<le> (of_int t :: rat)" "(of_int t :: rat) \<le> ?T"
    using assms(3) by simp_all
  have x1: "pow2 (- 7) \<le> of_int t / ?T" "of_int t / ?T \<le> pow2 0" "0 < of_int t / ?T"
    using t T by (simp_all add: pow2_def pos_le_divide_eq pos_divide_le_eq)
  have q1: "pow2 (- 7) \<le> ?q1" "?q1 \<le> pow2 0"
    using x1 by (simp_all only: roundDouble_ge_pow2 roundDouble_le_pow2)
  have x2l: "pow2 (- 1) \<le> ?q1 * ?b"
  proof -
    have "pow2 (- 1) \<le> pow2 (- 7) * 100" by (simp add: pow2_def)
    also have "\<dots> \<le> ?q1 * ?b" using q1(1) b(1) pow2_pos [of "- 7"] by (intro mult_mono) simp_all
    finally show ?thesis .
  qed
  have x2u: "?q1 * ?b \<le> pow2 9"
  proof -
    have "?q1 * ?b \<le> pow2 0 * 400" using q1 b pow2_pos [of "- 7"] by (intro mult_mono) simp_all
    also have "\<dots> \<le> pow2 9" by (simp add: pow2_def)
    finally show ?thesis .
  qed
  have x2p: "0 < ?q1 * ?b" using x2l pow2_pos [of "- 1"] by simp
  have q2: "pow2 (- 1) \<le> ?q2" "?q2 \<le> pow2 9"
    using x2l x2u x2p by (simp_all only: roundDouble_ge_pow2 roundDouble_le_pow2)
  have x3l: "pow2 0 \<le> ?q2 * of_nat m"
  proof -
    have "pow2 0 \<le> pow2 (- 1) * 2" by (simp add: pow2_def)
    also have "\<dots> \<le> ?q2 * of_nat m" using q2(1) m(1) pow2_pos [of "- 1"] by (intro mult_mono) simp_all
    finally show ?thesis .
  qed
  have x3u: "?q2 * of_nat m \<le> pow2 13"
  proof -
    have "?q2 * of_nat m \<le> pow2 9 * 12" using q2 m pow2_pos [of "- 1"] by (intro mult_mono) simp_all
    also have "\<dots> \<le> pow2 13" by (simp add: pow2_def)
    finally show ?thesis .
  qed
  have x3p: "0 < ?q2 * of_nat m" using x3l pow2_pos [of 0] by simp
  have q3: "pow2 0 \<le> ?q3" "?q3 \<le> pow2 13"
    using x3l x3u x3p by (simp_all only: roundDouble_ge_pow2 roundDouble_le_pow2)
  define B where "B = \<lfloor>?q3\<rfloor>"
  have B: "1 \<le> B" "B \<le> 8192"
    using q3 unfolding B_def by (simp_all add: pow2_def le_floor_iff floor_le_iff)
  define M where "M = m * baseScore (DIFFICULTY_CONFIG d)"
  have Mn: "M \<le> 12 * 400"
    unfolding M_def using assms(2) config_bounds(2) [of d] by (rule mult_le_mono)
  then have "int M \<le> int (12 * 400)" by (simp only: of_nat_le_iff)
  then have Mi: "int M \<le> 4800" by simp
  have M53: "M < 2 ^ 53" using Mn by simp
  have ms: "roundDouble (of_nat m * ?b) = of_nat M"
    using roundDouble_of_nat [OF M53] by (simp add: M_def)
  have pos: "0 < int M + B" using B(1) by linarith
  have "int M + B \<le> 12992" using B(2) Mi by linarith
  then have small: "int M + B < 2 ^ 53" by simp
  have "roundDouble (of_nat M + of_int B) = roundDouble (of_int (int M + B))"
    by simp
  also have "\<dots> = of_int (int M + B)" using pos small by (rule roundDouble_of_int_pos)
  finally have s: "roundDouble (of_nat M + of_int B) = of_int (int M + B)" .
  have W: "calculateScore Chrono d m t = of_int (int M + B)"
    unfolding calculateScore_def Let_def ms B_def [symmetric] using s by simp
  have L: "calculateScore Chrono d m 0 = of_int (int M)"
    using calculateScore_chrono_zero [OF assms(2), of d] by (simp add: M_def)
  have "int M < int M + B" using B(1) by linarith
  then show ?thesis unfolding W L by (simp only: of_int_less_iff)
qed

section \<open>The deck\<close>

lemma mset_sortRandom:
  assumes "isPermutation order (length xs)"
  shows "mset (sortRandom order xs) = mset xs"
proof -
  have "mset order = mset (sort order)" by simp
  also have "\<dots> = mset [0..<length xs]" using assms by (simp only: isPermutation_def)
  finally have "mset (map (\<lambda>k. xs ! k) order) = mset (map (\<lambda>k. xs ! k) [0..<length xs])"
    by (simp only: mset_map)
  then show ?thesis by (simp add: sortRandom_def map_nth)
qed

lemma length_pushPairs: "length (pushPairs i n acc) = length acc + 2 * (n - i)"
proof (induction i n acc rule: pushPairs.induct)
  case (1 i n acc)
  show ?case
  proof (cases "i < n")
    case True
    with "1" show ?thesis by (subst pushPairs.simps) simp
  next
    case False
    then show ?thesis by (subst pushPairs.simps) simp
  qed
qed

lemma mset_createCards:
  assumes "isPermutation order (2 * pairs (DIFFICULTY_CONFIG d))"
  shows "mset (createCards d order) = mset (pushPairs 0 (pairs (DIFFICULTY_CONFIG d)) [])"
  unfolding createCards_def
  by (rule mset_sortRandom) (use assms in \<open>simp add: length_pushPairs\<close>)

lemma pushed_distinct: "distinct (map cardId (pushPairs 0 (pairs (DIFFICULTY_CONFIG d)) []))"
  by (cases d; hypsubst_thin; code_simp)

lemma pushed_unmatched: "list_all (\<lambda>c. \<not> isMatched c) (pushPairs 0 (pairs (DIFFICULTY_CONFIG d)) [])"
  by (cases d; hypsubst_thin; code_simp)

lemma pushed_icons:
  "count_list (map icon (pushPairs 0 (pairs (DIFFICULTY_CONFIG d)) [])) k =
     2 * length (filter (\<lambda>i. ICONS ! (i mod length ICONS) = k) [0..<pairs (DIFFICULTY_CONFIG d)])"
  by (cases d; cases k; hypsubst_thin; code_simp)

lemma facile_icons:
  "length (filter (\<lambda>i. ICONS ! (i mod length ICONS) = k) [0..<pairs (DIFFICULTY_CONFIG Facile)]) = 1"
  by (cases k; hypsubst_thin; code_simp)

lemma createCards_props:
  assumes "isPermutation order (2 * pairs (DIFFICULTY_CONFIG d))"
  shows "length (createCards d order) = 2 * pairs (DIFFICULTY_CONFIG d) \<and>
         distinct (map cardId (createCards d order)) \<and>
         (\<forall>c \<in> set (createCards d order). \<not> isMatched c) \<and>
         (\<forall>k. count_list (map icon (createCards d order)) k =
               2 * length (filter (\<lambda>i. ICONS ! (i mod length ICONS) = k)
                             [0..<pairs (DIFFICULTY_CONFIG d)])) \<and>
         (d = Facile \<longrightarrow> (\<forall>k. count_list (map icon (createCards d order)) k = 2))"
proof -
  let ?cs = "createCards d order" and ?ps = "pushPairs 0 (pairs (DIFFICULTY_CONFIG d)) []"
  have m: "mset ?cs = mset ?ps" using assms by (rule mset_createCards)
  have len: "length ?cs = 2 * pairs (DIFFICULTY_CONFIG d)"
    using mset_eq_length [OF m] by (simp add: length_pushPairs)
  have "mset (map cardId ?cs) = mset (map cardId ?ps)" by (simp only: m mset_map)
  from mset_eq_imp_distinct_iff [OF this] pushed_distinct [of d]
  have dist: "distinct (map cardId ?cs)" by blast
  have "set ?cs = set ?ps" using m by (rule mset_eq_setD)
  then have unm: "\<forall>c \<in> set ?cs. \<not> isMatched c"
    using pushed_unmatched [of d] by (simp add: list_all_iff)
  have mi: "mset (map icon ?cs) = mset (map icon ?ps)" by (simp only: m mset_map)
  have cnt: "count_list (map icon ?cs) k =
      2 * length (filter (\<lambda>i. ICONS ! (i mod length ICONS) = k) [0..<pairs (DIFFICULTY_CONFIG d)])" for k
  proof -
    have "count_list (map icon ?cs) k = count (mset (map icon ?cs)) k" by (simp only: count_mset)
    also have "\<dots> = count_list (map icon ?ps) k" by (simp only: mi count_mset)
    finally show ?thesis by (simp only: pushed_icons)
  qed
  have fac: "d = Facile \<longrightarrow> (\<forall>k. count_list (map icon ?cs) k = 2)"
  proof (intro impI allI)
    fix k
    assume F: "d = Facile"
    from cnt [of k]
    have "count_list (map icon ?cs) k =
        2 * length (filter (\<lambda>i. ICONS ! (i mod length ICONS) = k)
                      [0..<pairs (DIFFICULTY_CONFIG Facile)])"
      by (simp only: F)
    then show "count_list (map icon ?cs) k = 2" by (simp only: facile_icons mult_1_right)
  qed
  from len dist unm cnt fac show ?thesis by blast
qed

text \<open>
  C1, amended. For every difficulty and every outcome of the shuffle, the deck has twice
  as many cards as the difficulty has pairs, no two cards share an id, and no card is
  matched. An icon appears twice for each pair that uses it: pair \<open>i\<close> uses icon
  \<open>i mod 6\<close>, so at the first difficulty (six pairs) every icon appears exactly twice,
  and at the others the icons of the pairs beyond the sixth appear four times.
\<close>

theorem createCards_deck:
  assumes "isPermutation order (2 * pairs (DIFFICULTY_CONFIG d))"
  shows "length (createCards d order) = 2 * pairs (DIFFICULTY_CONFIG d) \<and>
         distinct (map cardId (createCards d order)) \<and>
         (\<forall>c \<in> set (createCards d order). \<not> isMatched c) \<and>
         (\<forall>k. count_list (map icon (createCards d order)) k =
               2 * length (filter (\<lambda>i. ICONS ! (i mod length ICONS) = k)
                             [0..<pairs (DIFFICULTY_CONFIG d)])) \<and>
         (d = Facile \<longrightarrow> (\<forall>k. count_list (map icon (createCards d order)) k = 2))"
  using assms by (rule createCards_props)

theorem createCards_deck_witness:
  "isPermutation [3, 0, 2, 1, 5, 4, 7, 6, 9, 8, 11, 10] (2 * pairs (DIFFICULTY_CONFIG Facile)) \<and>
   length (createCards Facile [3, 0, 2, 1, 5, 4, 7, 6, 9, 8, 11, 10]) =
     2 * pairs (DIFFICULTY_CONFIG Facile) \<and>
   distinct (map cardId (createCards Facile [3, 0, 2, 1, 5, 4, 7, 6, 9, 8, 11, 10])) \<and>
   count_list (map icon (createCards Facile [3, 0, 2, 1, 5, 4, 7, 6, 9, 8, 11, 10])) Star = 2"
proof -
  have p: "isPermutation [3, 0, 2, 1, 5, 4, 7, 6, 9, 8, 11, 10] (2 * pairs (DIFFICULTY_CONFIG Facile))"
    by code_simp
  show ?thesis using p createCards_deck [OF p] by blast
qed

text \<open>
  The claim as stated fails at the second difficulty: eight pairs share six icons, and
  the first icon is on four cards.
\<close>

theorem createCards_moyen_counterexample:
  "isPermutation [0..<16] (2 * pairs (DIFFICULTY_CONFIG Moyen)) \<and>
   count_list (map icon (createCards Moyen [0..<16])) Heart = 4"
  by code_simp

section \<open>Starting a game\<close>

text \<open>
  At the moment it returns, \<^verbatim>\<open>startGame\<close> has installed the deck that \<^verbatim>\<open>createCards\<close>
  builds for the selected difficulty, with no card matched; it has set the count of
  matched pairs to 0, the flipped indices to all the indices of the new deck, the time
  left to the time limit of the difficulty in chrono mode and to 0 otherwise, and the
  phase to preview. The mode, the difficulty and the best scores are kept, and so are
  the pending timeouts: \<^verbatim>\<open>startGame\<close> cancels none.
\<close>

lemma startGame_reset:
  assumes "isPermutation order (2 * pairs (DIFFICULTY_CONFIG (difficulty s)))"
  shows "cards (startGame order s) = createCards (difficulty s) order \<and>
         length (cards (startGame order s)) = 2 * pairs (DIFFICULTY_CONFIG (difficulty s)) \<and>
         (\<forall>c \<in> set (cards (startGame order s)). \<not> isMatched c) \<and>
         matches (startGame order s) = 0 \<and>
         flippedIndexes (startGame order s) = [0..<length (cards (startGame order s))] \<and>
         isChecking (startGame order s) = False \<and>
         timeLeft (startGame order s) =
           (if mode s = Chrono then int (time (DIFFICULTY_CONFIG (difficulty s))) else 0) \<and>
         gameState (startGame order s) = Preview \<and>
         score (startGame order s) = 0 \<and>
         mode (startGame order s) = mode s \<and>
         difficulty (startGame order s) = difficulty s \<and>
         bestScores (startGame order s) = bestScores s \<and>
         timeouts (startGame order s) = timeouts s"
  using createCards_props [OF assms] by (simp add: startGame_def Let_def)

text \<open>The state before is the setup screen after a won game: six pairs, all cards matched.\<close>

lemma startGame_reset_example:
  "isPermutation (rev [0..<12]) (2 * pairs (DIFFICULTY_CONFIG (difficulty playedFacile))) \<and>
   matches playedFacile = 6 \<and> list_all isMatched (cards playedFacile) \<and>
   matches (startGame (rev [0..<12]) playedFacile) = 0 \<and>
   gameState (startGame (rev [0..<12]) playedFacile) = Preview \<and>
   flippedIndexes (startGame (rev [0..<12]) playedFacile) =
     [0..<length (cards (startGame (rev [0..<12]) playedFacile))] \<and>
   length (cards (startGame (rev [0..<12]) playedFacile)) =
     2 * pairs (DIFFICULTY_CONFIG (difficulty playedFacile))"
proof -
  have p: "isPermutation (rev [0..<12]) (2 * pairs (DIFFICULTY_CONFIG (difficulty playedFacile)))"
    by code_simp
  have q: "matches playedFacile = 6 \<and> list_all isMatched (cards playedFacile)"
    by code_simp
  show ?thesis using p q startGame_reset [OF p] by blast
qed

text \<open>
  C8. After \<^verbatim>\<open>startGame\<close> no flipped or matched state of a prior session should survive.
  In the game \<open>lossThenReplay\<close> it does. Right after \<^verbatim>\<open>startGame\<close> the session is as the
  claim says (preview, count 0, all indices flipped, no card matched), but the match
  timeout of the lost game is still pending. It runs during the preview: the session
  then has the count 1, no flipped index, and the deck of the lost game, in the order of
  that game, with its four matched cards.
\<close>

theorem startGame_keeps_pending_timeout:
  "map_option
     (\<lambda>s. (gameState s, matches s, flippedIndexes s = [0..<length (cards s)],
           map cardId (filter isMatched (cards s)), length (timeouts s)))
     (run (butlast lossThenReplay) initialState) = Some (Preview, 0, True, [], 1) \<and>
   map_option
     (\<lambda>s. (gameState s, matches s, flippedIndexes s,
           map cardId (filter isMatched (cards s)), map cardId (take 4 (cards s))))
     (run lossThenReplay initialState) = Some (Preview, 1, [], [0, 1, 2, 3], [0, 1, 2, 3])"
  by code_simp

section \<open>Clicking a card\<close>

lemma onCardClick_ignored:
  assumes "index < length (cards s)"
    and "isChecking s \<or> isMatched (cards s ! index) \<or> index \<in> set (flippedIndexes s) \<or>
         length (flippedIndexes s) = 2 \<or> gameState s \<noteq> Playing"
  shows "onCardClick s index = Inr s"
  using assms by (auto simp: onCardClick_def handleCardClick_def)

lemma onCardClick_accepted:
  assumes "index < length (cards s)" "set (flippedIndexes s) \<subseteq> {..<length (cards s)}"
    and "\<not> (isChecking s \<or> isMatched (cards s ! index) \<or> index \<in> set (flippedIndexes s) \<or>
            length (flippedIndexes s) = 2 \<or> gameState s \<noteq> Playing)"
  shows "\<exists>s'. onCardClick s index = Inr s' \<and>
           flippedIndexes s' = flippedIndexes s @ [index] \<and>
           isChecking s' = (length (flippedIndexes s') = 2) \<and>
           length (timeouts s') = length (timeouts s) + (if isChecking s' then 1 else 0) \<and>
           take (length (timeouts s)) (timeouts s') = timeouts s \<and>
           gameState s' = gameState s \<and> mode s' = mode s \<and> difficulty s' = difficulty s \<and>
           cards s' = cards s \<and> matches s' = matches s \<and> timeLeft s' = timeLeft s \<and>
           score s' = score s \<and> bestScores s' = bestScores s \<and>
           persisted s' = persisted s \<and> toasts s' = toasts s"
proof -
  have first: "length (flippedIndexes s) = 1 \<Longrightarrow> (flippedIndexes s @ [index]) ! 0 < length (cards s)"
    using assms(2) by (cases "flippedIndexes s") auto
  show ?thesis
    using assms first
    by (auto simp: onCardClick_def handleCardClick_def Let_def)
qed

lemma onCardClick_twice:
  assumes "index < length (cards s)" "onCardClick s index = Inr s'"
  shows "onCardClick s' index = Inr s'"
proof (cases "isChecking s \<or> isMatched (cards s ! index) \<or> index \<in> set (flippedIndexes s) \<or>
              length (flippedIndexes s) = 2 \<or> gameState s \<noteq> Playing")
  case True
  with assms have "s' = s" by (simp add: onCardClick_ignored)
  with assms show ?thesis by simp
next
  case False
  with assms have "cards s' = cards s \<and> gameState s' = gameState s \<and> index \<in> set (flippedIndexes s')"
    by (auto simp: onCardClick_def handleCardClick_def Let_def split: if_splits)
  then have "index < length (cards s')" "index \<in> set (flippedIndexes s')"
    using assms(1) by simp_all
  then show ?thesis by (simp add: onCardClick_ignored)
qed

text \<open>
  C6. A click on a card of the grid (\<^verbatim>\<open>handleCardClick\<close> behind the \<^verbatim>\<open>onClick\<close> guard), in a
  state whose flipped indices are indices of the deck. It leaves the whole state
  unchanged when a check is in progress, the card is matched, the index is already
  flipped, two indices are flipped, or the phase is not playing. Otherwise it appends the
  index to the flipped indices, enters checking exactly when that makes two (and then
  schedules one timeout), and changes nothing else. A second click on the same index
  changes nothing, so one index never fills both places.
\<close>

theorem onCardClick_frame:
  assumes "index < length (cards s)" "set (flippedIndexes s) \<subseteq> {..<length (cards s)}"
  shows
    "(isChecking s \<or> isMatched (cards s ! index) \<or> index \<in> set (flippedIndexes s) \<or>
      length (flippedIndexes s) = 2 \<or> gameState s \<noteq> Playing \<longrightarrow>
        onCardClick s index = Inr s) \<and>
     (\<not> (isChecking s \<or> isMatched (cards s ! index) \<or> index \<in> set (flippedIndexes s) \<or>
         length (flippedIndexes s) = 2 \<or> gameState s \<noteq> Playing) \<longrightarrow>
        (\<exists>s'. onCardClick s index = Inr s' \<and>
           flippedIndexes s' = flippedIndexes s @ [index] \<and>
           isChecking s' = (length (flippedIndexes s') = 2) \<and>
           length (timeouts s') = length (timeouts s) + (if isChecking s' then 1 else 0) \<and>
           take (length (timeouts s)) (timeouts s') = timeouts s \<and>
           gameState s' = gameState s \<and> mode s' = mode s \<and> difficulty s' = difficulty s \<and>
           cards s' = cards s \<and> matches s' = matches s \<and> timeLeft s' = timeLeft s \<and>
           score s' = score s \<and> bestScores s' = bestScores s \<and>
           persisted s' = persisted s \<and> toasts s' = toasts s)) \<and>
     (\<forall>s'. onCardClick s index = Inr s' \<longrightarrow> onCardClick s' index = Inr s')"
  using onCardClick_ignored [OF assms(1)] onCardClick_accepted [OF assms]
    onCardClick_twice [OF assms(1)]
  by blast

theorem onCardClick_frame_witness:
  "3 < length (cards playingFacile) \<and>
   set (flippedIndexes playingFacile) \<subseteq> {..<length (cards playingFacile)} \<and>
   (\<exists>s'. onCardClick playingFacile 3 = Inr s' \<and>
      flippedIndexes s' = flippedIndexes playingFacile @ [3] \<and>
      cards s' = cards playingFacile \<and> onCardClick s' 3 = Inr s')"
proof -
  have h1: "3 < length (cards playingFacile)" by code_simp
  have h2: "set (flippedIndexes playingFacile) \<subseteq> {..<length (cards playingFacile)}"
    by code_simp
  have n: "\<not> (isChecking playingFacile \<or> isMatched (cards playingFacile ! 3) \<or>
              3 \<in> set (flippedIndexes playingFacile) \<or>
              length (flippedIndexes playingFacile) = 2 \<or> gameState playingFacile \<noteq> Playing)"
    by code_simp
  show ?thesis using h1 h2 n onCardClick_frame [OF h1 h2] by blast
qed

section \<open>The best-score table\<close>

lemma findIndex_ge: "- 1 \<le> findIndex P xs"
  by (induction xs) (auto simp: Let_def)

lemma findIndex_none: "findIndex P xs = - 1 \<longleftrightarrow> (\<forall>x \<in> set xs. \<not> P x)"
proof (induction xs)
  case Nil
  then show ?case by simp
next
  case (Cons x xs)
  have "findIndex P xs + 1 \<noteq> - 1" using findIndex_ge [of P xs] by simp
  with Cons show ?case by (auto simp: Let_def)
qed

lemma findIndex_first:
  assumes "findIndex P xs \<noteq> - 1"
  shows "nat (findIndex P xs) < length xs \<and> P (xs ! nat (findIndex P xs)) \<and> 0 \<le> findIndex P xs"
  using assms
proof (induction xs)
  case Nil
  then show ?case by simp
next
  case (Cons x xs)
  show ?case
  proof (cases "P x")
    case True
    then show ?thesis by simp
  next
    case False
    with Cons.prems have n: "findIndex P xs \<noteq> - 1" by (auto simp: Let_def split: if_splits)
    from Cons.IH [OF n] have ih: "nat (findIndex P xs) < length xs" "P (xs ! nat (findIndex P xs))"
      "0 \<le> findIndex P xs" by simp_all
    have "findIndex P (x # xs) = findIndex P xs + 1" using False n by (simp add: Let_def)
    moreover have "nat (findIndex P xs + 1) = Suc (nat (findIndex P xs))" using ih(3) by simp
    ultimately show ?thesis using ih by simp
  qed
qed

text \<open>The key of an entry of the table.\<close>

lemma findIndex_key:
  assumes "distinct (map f xs)" "i < length xs" "f (xs ! i) = k"
  shows "findIndex (\<lambda>e. f e = k) xs = int i"
proof -
  let ?j = "findIndex (\<lambda>e. f e = k) xs"
  have "\<exists>x \<in> set xs. f x = k" using assms(2,3) nth_mem by blast
  then have n: "?j \<noteq> - 1" by (simp add: findIndex_none)
  from findIndex_first [OF n] have j: "nat ?j < length xs" "f (xs ! nat ?j) = k" "0 \<le> ?j"
    by simp_all
  have "map f xs ! nat ?j = map f xs ! i" using j assms by simp
  moreover have "nat ?j < length (map f xs)" "i < length (map f xs)" using j(1) assms(2) by simp_all
  ultimately have "nat ?j = i" using nth_eq_iff_index_eq [OF assms(1)] by blast
  then show ?thesis using j(3) by simp
qed


lemma findIndex_entry:
  assumes "distinct (map (\<lambda>e. (s_mode e, s_difficulty e)) table)" "i < length table"
    and "s_mode (table ! i) = m" "s_difficulty (table ! i) = d"
  shows "findIndex (\<lambda>e. s_mode e = m \<and> s_difficulty e = d) table = int i"
  using findIndex_key [of "\<lambda>e. (s_mode e, s_difficulty e)" table i "(m, d)"] assms by simp

lemma distinct_keys_update:
  assumes "distinct (map (\<lambda>e. (s_mode e, s_difficulty e)) table)" "i < length table"
    and "s_mode e' = s_mode (table ! i)" "s_difficulty e' = s_difficulty (table ! i)"
  shows "distinct (map (\<lambda>e. (s_mode e, s_difficulty e)) (table[i := e']))"
proof -
  have "map (\<lambda>e. (s_mode e, s_difficulty e)) (table[i := e']) =
        (map (\<lambda>e. (s_mode e, s_difficulty e)) table)[i := (s_mode e', s_difficulty e')]"
    by (simp add: map_update)
  also have "\<dots> = map (\<lambda>e. (s_mode e, s_difficulty e)) table"
    using assms(2,3,4) by (simp add: list_update_same_conv)
  finally show ?thesis using assms(1) by simp
qed

text \<open>
  What \<^verbatim>\<open>endGame\<close> does with the table of the render \<open>r\<close> that it reads and the table of
  the state, both with distinct keys.
\<close>

lemma endGame_table_props:
  assumes "distinct (map (\<lambda>e. (s_mode e, s_difficulty e)) (bestScores r))"
    and "distinct (map (\<lambda>e. (s_mode e, s_difficulty e)) (bestScores s))"
  shows
    "((\<forall>e \<in> set (bestScores r). \<not> (s_mode e = mode r \<and> s_difficulty e = difficulty r)) \<longrightarrow>
        bestScores (endGame r isWin s) =
          bestScores r @
            [\<lparr>s_mode = mode r, s_difficulty = difficulty r,
              s_score = calculateScore (mode r) (difficulty r) (matches r) (timeLeft r),
              s_time = (if mode r = Chrono then Some (timeLeft r) else None)\<rparr>] \<and>
        persisted (endGame r isWin s) = Some (bestScores (endGame r isWin s))) \<and>
     (\<forall>i < length (bestScores r).
        s_mode (bestScores r ! i) = mode r \<and> s_difficulty (bestScores r ! i) = difficulty r \<longrightarrow>
        (s_score (bestScores r ! i) < calculateScore (mode r) (difficulty r) (matches r) (timeLeft r) \<longrightarrow>
           bestScores (endGame r isWin s) =
             (bestScores r)
               [i := \<lparr>s_mode = mode r, s_difficulty = difficulty r,
                      s_score = calculateScore (mode r) (difficulty r) (matches r) (timeLeft r),
                      s_time = (if mode r = Chrono then Some (timeLeft r) else None)\<rparr>] \<and>
           persisted (endGame r isWin s) = Some (bestScores (endGame r isWin s))) \<and>
        (\<not> s_score (bestScores r ! i) < calculateScore (mode r) (difficulty r) (matches r) (timeLeft r) \<longrightarrow>
           bestScores (endGame r isWin s) = bestScores s \<and>
           persisted (endGame r isWin s) = persisted s)) \<and>
     distinct (map (\<lambda>e. (s_mode e, s_difficulty e)) (bestScores (endGame r isWin s)))"
proof (intro conjI impI allI)
  assume none: "\<forall>e \<in> set (bestScores r). \<not> (s_mode e = mode r \<and> s_difficulty e = difficulty r)"
  then have "findIndex (\<lambda>e. s_mode e = mode r \<and> s_difficulty e = difficulty r) (bestScores r) = - 1"
    by (simp only: findIndex_none)
  then show "bestScores (endGame r isWin s) =
          bestScores r @
            [\<lparr>s_mode = mode r, s_difficulty = difficulty r,
              s_score = calculateScore (mode r) (difficulty r) (matches r) (timeLeft r),
              s_time = (if mode r = Chrono then Some (timeLeft r) else None)\<rparr>]"
    and "persisted (endGame r isWin s) = Some (bestScores (endGame r isWin s))"
    by (simp_all add: endGame_def Let_def)
next
  fix i
  assume i: "i < length (bestScores r)"
    and k: "s_mode (bestScores r ! i) = mode r \<and> s_difficulty (bestScores r ! i) = difficulty r"
  have f: "findIndex (\<lambda>e. s_mode e = mode r \<and> s_difficulty e = difficulty r) (bestScores r) = int i"
    using assms(1) i k by (simp add: findIndex_entry)
  {
    assume "s_score (bestScores r ! i) < calculateScore (mode r) (difficulty r) (matches r) (timeLeft r)"
    then show "bestScores (endGame r isWin s) =
             (bestScores r)
               [i := \<lparr>s_mode = mode r, s_difficulty = difficulty r,
                      s_score = calculateScore (mode r) (difficulty r) (matches r) (timeLeft r),
                      s_time = (if mode r = Chrono then Some (timeLeft r) else None)\<rparr>]"
      and "persisted (endGame r isWin s) = Some (bestScores (endGame r isWin s))"
      by (simp_all add: endGame_def Let_def f)
  }
  {
    assume "\<not> s_score (bestScores r ! i) < calculateScore (mode r) (difficulty r) (matches r) (timeLeft r)"
    then show "bestScores (endGame r isWin s) = bestScores s"
      and "persisted (endGame r isWin s) = persisted s"
      by (simp_all add: endGame_def Let_def f)
  }
next
  let ?P = "\<lambda>e. s_mode e = mode r \<and> s_difficulty e = difficulty r"
  show "distinct (map (\<lambda>e. (s_mode e, s_difficulty e)) (bestScores (endGame r isWin s)))"
  proof (cases "findIndex ?P (bestScores r) = - 1")
    case True
    then have "\<forall>e \<in> set (bestScores r). \<not> ?P e" by (simp only: findIndex_none)
    then have "(mode r, difficulty r) \<notin> set (map (\<lambda>e. (s_mode e, s_difficulty e)) (bestScores r))"
      by auto
    with True assms(1) show ?thesis by (simp add: endGame_def Let_def)
  next
    case False
    from findIndex_first [OF False]
    have j: "nat (findIndex ?P (bestScores r)) < length (bestScores r)"
      "?P (bestScores r ! nat (findIndex ?P (bestScores r)))" by simp_all
    have "distinct (map (\<lambda>e. (s_mode e, s_difficulty e))
            ((bestScores r)[nat (findIndex ?P (bestScores r)) :=
                \<lparr>s_mode = mode r, s_difficulty = difficulty r,
                 s_score = calculateScore (mode r) (difficulty r) (matches r) (timeLeft r),
                 s_time = (if mode r = Chrono then Some (timeLeft r) else None)\<rparr>]))"
      using assms(1) j by (intro distinct_keys_update) simp_all
    with False assms(2) show ?thesis by (simp add: endGame_def Let_def)
  qed
qed

section \<open>Loading the best scores\<close>

text \<open>
  C5, amended. Loading raises no error when the key is missing or holds the empty text
  (the table stays as it is, empty at mounting), and none when the stored text parses:
  the parsed table becomes the table. When \<^verbatim>\<open>JSON.parse\<close> throws on the stored text, the
  error is not caught: loading raises it.
\<close>

theorem loadBestScores_cases:
  "loadBestScores parse None s = Inr s \<and>
   loadBestScores parse (Some []) s = Inr s \<and>
   (text \<noteq> [] \<longrightarrow>
      loadBestScores parse (Some text) s =
        (case parse text of Inl e \<Rightarrow> Inl e | Inr table \<Rightarrow> Inr (s\<lparr>bestScores := table\<rparr>)))"
  by (simp add: loadBestScores_def)

theorem loadBestScores_cases_witness:
  "''[]'' \<noteq> [] \<and>
   loadBestScores (\<lambda>text. if text = ''[]'' then Inr [] else Inl SyntaxError) (Some ''[]'')
     initialState = Inr (initialState\<lparr>bestScores := []\<rparr>)"
  using loadBestScores_cases
    [of "\<lambda>text. if text = ''[]'' then Inr [] else Inl SyntaxError" initialState "''[]''"]
  by simp

text \<open>
  The claim as stated fails on a stored text that is not JSON, such as a lone opening
  brace, on which \<^verbatim>\<open>JSON.parse\<close> throws.
\<close>

theorem loadBestScores_malformed_counterexample:
  "loadBestScores (\<lambda>text. Inl SyntaxError) (Some ''{'') initialState = Inl SyntaxError"
  by (simp add: loadBestScores_def)

section \<open>Reachable states\<close>

lemma reachable_initialState: "reachable initialState"
proof -
  have "reachable (initialState\<lparr>bestScores := []\<rparr>)" by (rule reachable.mounted)
  then show ?thesis by (simp add: initialState_def)
qed

lemma reachable_run:
  assumes "reachable s" "run es s = Some s'"
  shows "reachable s'"
  using assms
proof (induction es arbitrary: s)
  case Nil
  then show ?case by simp
next
  case (Cons e es)
  from Cons.prems(2) obtain t where t: "dispatch e s = Some t" and r: "run es t = Some s'"
    by (auto split: option.splits)
  from Cons.prems(1) t have "reachable t" by (rule reachable.step)
  then show ?case using r by (rule Cons.IH)
qed

lemma reachable_the_run:
  assumes "run es initialState \<noteq> None"
  shows "reachable (the (run es initialState))"
  using assms reachable_run [OF reachable_initialState] by auto

lemma endGame_frame:
  "flippedIndexes (endGame r w s) = flippedIndexes s \<and> cards (endGame r w s) = cards s \<and>
   gameState (endGame r w s) = Finished \<and> matches (endGame r w s) = matches s \<and>
   isChecking (endGame r w s) = isChecking s \<and> timeouts (endGame r w s) = timeouts s \<and>
   mode (endGame r w s) = mode s \<and> difficulty (endGame r w s) = difficulty s \<and>
   timeLeft (endGame r w s) = timeLeft s"
  by (simp add: endGame_def Let_def)

lemma afterRender_flipped:
  "flippedIndexes (afterRender prev s) = flippedIndexes s \<and>
   cards (afterRender prev s) = cards s \<and>
   (gameState (afterRender prev s) = Preview \<longleftrightarrow> gameState s = Preview)"
  by (simp add: afterRender_def timerEffect_def endGame_frame)

lemma handleCardClick_flipped:
  assumes "index < length (cards s)" "flippedOk s"
  shows "flippedOk (case handleCardClick s index of Inl (e, s') \<Rightarrow> s' | Inr s' \<Rightarrow> s') \<and>
         gameState (case handleCardClick s index of Inl (e, s') \<Rightarrow> s' | Inr s' \<Rightarrow> s') = gameState s"
  using assms by (auto simp: handleCardClick_def flippedOk_def Let_def)

lemma runTimeout_flipped: "flippedIndexes (runTimeout t s) = []"
  by (cases t) (simp_all add: Let_def endGame_frame)

lemma handle_flipped:
  assumes "handle e s = Some s'" "gameState s \<noteq> Preview \<longrightarrow> flippedOk s"
  shows "gameState s' \<noteq> Preview \<longrightarrow> flippedOk s'"
proof (cases e)
  case (CardClick index)
  with assms show ?thesis
    using handleCardClick_flipped [of index s]
    by (auto simp: onCardClick_def split: if_splits)
next
  case (Timeout k)
  with assms(1) show ?thesis
    by (auto simp: flippedOk_def runTimeout_flipped split: if_splits)
next
  case (StartGame order)
  with assms(1) show ?thesis by (auto simp: startGame_def Let_def split: if_splits)
qed (use assms in \<open>auto simp: flippedOk_def split: if_splits\<close>)

lemma reachable_flipped:
  assumes "reachable s"
  shows "gameState s \<noteq> Preview \<longrightarrow> flippedOk s"
  using assms
proof (induction rule: reachable.induct)
  case (mounted table)
  show ?case by (simp add: initialState_def flippedOk_def)
next
  case (step s e s')
  from step.hyps(2) obtain h where h: "handle e s = Some h" and s': "s' = afterRender s h"
    by (auto simp: dispatch_def)
  from handle_flipped [OF h step.IH] have "gameState h \<noteq> Preview \<longrightarrow> flippedOk h" .
  then show ?case using afterRender_flipped [of s h] by (simp add: s' flippedOk_def)
qed

text \<open>
  C7, amended. In every reachable state outside the preview, the flipped indices are at
  most two and each is an index of the deck; they are also distinct. (The preview is
  left out because \<^verbatim>\<open>startGame\<close> flips every index of the new deck.)
\<close>

theorem flippedIndexes_bounded:
  assumes "reachable s"
  shows "gameState s \<noteq> Preview \<longrightarrow>
           length (flippedIndexes s) \<le> 2 \<and> distinct (flippedIndexes s) \<and>
           set (flippedIndexes s) \<subseteq> {..<length (cards s)}"
  using reachable_flipped [OF assms] by (simp add: flippedOk_def)

theorem flippedIndexes_bounded_witness:
  "reachable (the (run [StartGame [0..<12], PreviewTimeout, CardClick 3, CardClick 7] initialState)) \<and>
   gameState (the (run [StartGame [0..<12], PreviewTimeout, CardClick 3, CardClick 7] initialState))
     \<noteq> Preview \<and>
   length (flippedIndexes
     (the (run [StartGame [0..<12], PreviewTimeout, CardClick 3, CardClick 7] initialState))) \<le> 2"
proof -
  let ?s = "the (run [StartGame [0..<12], PreviewTimeout, CardClick 3, CardClick 7] initialState)"
  have "run [StartGame [0..<12], PreviewTimeout, CardClick 3, CardClick 7] initialState \<noteq> None"
    by code_simp
  then have r: "reachable ?s" by (rule reachable_the_run)
  have g: "gameState ?s \<noteq> Preview" by code_simp
  show ?thesis using r g flippedIndexes_bounded [OF r] by blast
qed

text \<open>
  The claim as stated fails in the preview: right after the start of a game at the first
  difficulty, all twelve indices are flipped.
\<close>

theorem flippedIndexes_preview_counterexample:
  "reachable (the (run [StartGame [0..<12]] initialState)) \<and>
   gameState (the (run [StartGame [0..<12]] initialState)) = Preview \<and>
   length (flippedIndexes (the (run [StartGame [0..<12]] initialState))) = 12"
proof -
  have "run [StartGame [0..<12]] initialState \<noteq> None" by code_simp
  then have "reachable (the (run [StartGame [0..<12]] initialState))" by (rule reachable_the_run)
  moreover have "gameState (the (run [StartGame [0..<12]] initialState)) = Preview \<and>
    length (flippedIndexes (the (run [StartGame [0..<12]] initialState))) = 12"
    by code_simp
  ultimately show ?thesis by blast
qed

section \<open>The keys of the table in every run\<close>

lemma endGame_keysOk:
  assumes "keysOk s" "distinct (map (\<lambda>e. (s_mode e, s_difficulty e)) (bestScores r))"
  shows "keysOk (endGame r w s)"
proof -
  from assms have "distinct (map (\<lambda>e. (s_mode e, s_difficulty e)) (bestScores s))"
    by (simp add: keysOk_def)
  from endGame_table_props [OF assms(2) this, of w]
  have "distinct (map (\<lambda>e. (s_mode e, s_difficulty e)) (bestScores (endGame r w s)))" by blast
  moreover have "timeouts (endGame r w s) = timeouts s" by (simp add: endGame_frame)
  ultimately show ?thesis using assms(1) by (simp add: keysOk_def)
qed

lemma afterRender_keysOk:
  assumes "keysOk s"
  shows "keysOk (afterRender prev s)"
proof -
  have "distinct (map (\<lambda>e. (s_mode e, s_difficulty e)) (bestScores (render.truncate s)))"
    using assms by (simp add: keysOk_def render.defs)
  from endGame_keysOk [OF assms this] assms show ?thesis
    by (simp add: afterRender_def timerEffect_def)
qed

lemma keysOk_frame:
  assumes "keysOk s" "bestScores s' = bestScores s" "set (timeouts s') \<subseteq> set (timeouts s)"
  shows "keysOk s'"
  using assms unfolding keysOk_def by auto

lemma handleCardClick_keysOk:
  assumes "keysOk s"
  shows "keysOk (case handleCardClick s index of Inl (e, s') \<Rightarrow> s' | Inr s' \<Rightarrow> s')"
  using assms by (auto simp: handleCardClick_def Let_def keysOk_def render.defs)

lemma runTimeout_keysOk:
  assumes "keysOk s" "k < length (timeouts s)"
  shows "keysOk (runTimeout (timeouts s ! k)
           (s\<lparr>timeouts := take k (timeouts s) @ drop (Suc k) (timeouts s)\<rparr>))"
proof -
  let ?s = "s\<lparr>timeouts := take k (timeouts s) @ drop (Suc k) (timeouts s)\<rparr>"
  have sub: "set (timeouts ?s) \<subseteq> set (timeouts s)"
    using set_take_subset [of k "timeouts s"] set_drop_subset [of "Suc k" "timeouts s"] by auto
  have s: "keysOk ?s" by (rule keysOk_frame [OF assms(1)]) (use sub in simp_all)
  show ?thesis
  proof (cases "timeouts s ! k")
    case MismatchTimeout
    show ?thesis unfolding MismatchTimeout
      by (rule keysOk_frame [OF s]) simp_all
  next
    case (MatchTimeout r i j)
    then have "MatchTimeout r i j \<in> set (timeouts s)" using assms(2) nth_mem by metis
    with assms(1) have r: "distinct (map (\<lambda>e. (s_mode e, s_difficulty e)) (bestScores r))"
      unfolding keysOk_def by blast
    let ?s1 = "?s\<lparr>cards :=
                   map (\<lambda>(index, card).
                          if index = i \<or> index = j
                          then card\<lparr>isMatched := True\<rparr> else card)
                       (enumerate 0 (cards r)),
                 flippedIndexes := []\<rparr>"
    have s1: "keysOk ?s1" by (rule keysOk_frame [OF s]) simp_all
    have e: "keysOk (endGame r True ?s1)" using s1 r by (rule endGame_keysOk)
    have "keysOk (if 2 * (matches ?s1 + 1) = length (cards r) then endGame r True ?s1 else ?s1)"
      using s1 e by simp
    then have "keysOk ((if 2 * (matches ?s1 + 1) = length (cards r) then endGame r True ?s1 else ?s1)
        \<lparr>matches := matches ?s1 + 1, isChecking := False\<rparr>)"
      by (rule keysOk_frame) simp_all
    then show ?thesis unfolding MatchTimeout by (simp add: Let_def)
  qed
qed

lemma handle_keysOk:
  assumes "handle e s = Some s'" "keysOk s"
  shows "keysOk s'"
proof (cases e)
  case (CardClick index)
  from assms(1) have s': "s' = (case onCardClick s index of Inl (e, s') \<Rightarrow> s' | Inr s' \<Rightarrow> s')"
    unfolding CardClick by (simp_all split: if_splits)
  show ?thesis
  proof (cases "gameState s = Playing")
    case True
    have eq: "onCardClick s index = handleCardClick s index"
      using True by (simp add: onCardClick_def)
    show ?thesis unfolding s' eq using assms(2) by (rule handleCardClick_keysOk)
  next
    case False
    have eq: "onCardClick s index = Inr s" using False by (simp add: onCardClick_def)
    show ?thesis unfolding s' eq using assms(2) by simp
  qed
next
  case (Timeout k)
  from assms(1) have k: "k < length (timeouts s)"
    and s': "s' = runTimeout (timeouts s ! k)
           (s\<lparr>timeouts := take k (timeouts s) @ drop (Suc k) (timeouts s)\<rparr>)"
    unfolding Timeout by (simp_all del: runTimeout.simps split: if_splits)
  show ?thesis unfolding s' using assms(2) k by (rule runTimeout_keysOk)
next
  case (StartGame order)
  from assms(1) have s': "s' = startGame order s"
    unfolding StartGame by (simp_all split: if_splits)
  show ?thesis unfolding s' by (rule keysOk_frame [OF assms(2)]) (simp_all add: startGame_def Let_def)
next
  case (SelectMode m)
  from assms(1) have s': "s' = s\<lparr>mode := m\<rparr>" unfolding SelectMode by (simp split: if_splits)
  show ?thesis unfolding s' by (rule keysOk_frame [OF assms(2)]) simp_all
next
  case (SelectDifficulty d)
  from assms(1) have s': "s' = s\<lparr>difficulty := d\<rparr>"
    unfolding SelectDifficulty by (simp split: if_splits)
  show ?thesis unfolding s' by (rule keysOk_frame [OF assms(2)]) simp_all
next
  case PreviewTimeout
  from assms(1) have s': "s' = s\<lparr>gameState := Playing, flippedIndexes := []\<rparr>"
    unfolding PreviewTimeout by (simp split: if_splits)
  show ?thesis unfolding s' by (rule keysOk_frame [OF assms(2)]) simp_all
next
  case Tick
  from assms(1) have s': "s' = s\<lparr>timeLeft := timeLeft s - 1\<rparr>"
    unfolding Tick by (simp split: if_splits)
  show ?thesis unfolding s' by (rule keysOk_frame [OF assms(2)]) simp_all
next
  case Rejouer
  from assms(1) have s': "s' = s\<lparr>gameState := Setup\<rparr>"
    unfolding Rejouer by (simp_all split: if_splits)
  show ?thesis unfolding s' by (rule keysOk_frame [OF assms(2)]) simp_all
qed

lemma dispatch_keysOk:
  assumes "dispatch e s = Some s'" "keysOk s"
  shows "keysOk s'"
proof -
  from assms(1) obtain h where h: "handle e s = Some h" and s': "s' = afterRender s h"
    by (auto simp: dispatch_def)
  from handle_keysOk [OF h assms(2)] show ?thesis unfolding s' by (rule afterRender_keysOk)
qed

text \<open>
  Whatever happens after mounting with a table of distinct keys, the keys of the table
  stay distinct.
\<close>

lemma run_distinct_keys:
  assumes "distinct (map (\<lambda>e. (s_mode e, s_difficulty e)) table)"
    and "run es (initialState\<lparr>bestScores := table\<rparr>) = Some s"
  shows "distinct (map (\<lambda>e. (s_mode e, s_difficulty e)) (bestScores s))"
proof -
  have r: "keysOk t \<Longrightarrow> run es t = Some s \<Longrightarrow> keysOk s" for t
  proof (induction es arbitrary: t)
    case Nil
    then show ?case by simp
  next
    case (Cons e es)
    from Cons.prems(2) obtain u where u: "dispatch e t = Some u" and r: "run es u = Some s"
      by (auto split: option.splits)
    from dispatch_keysOk [OF u Cons.prems(1)] r show ?case by (rule Cons.IH)
  qed
  have "keysOk (initialState\<lparr>bestScores := table\<rparr>)"
    using assms(1) by (simp add: keysOk_def initialState_def)
  from r [OF this assms(2)] show ?thesis by (simp add: keysOk_def)
qed

section \<open>The table at the end of a game\<close>

text \<open>No element before the index that \<^verbatim>\<open>findIndex\<close> returns satisfies the predicate.\<close>

lemma findIndex_least:
  assumes "findIndex P xs \<noteq> - 1" "j < nat (findIndex P xs)"
  shows "\<not> P (xs ! j)"
  using assms
proof (induction xs arbitrary: j)
  case Nil
  then show ?case by simp
next
  case (Cons x xs)
  show ?case
  proof (cases "P x")
    case True
    with Cons.prems(2) show ?thesis by simp
  next
    case False
    with Cons.prems(1) have n: "findIndex P xs \<noteq> - 1" by (auto simp: Let_def split: if_splits)
    from findIndex_first [OF n] have p: "0 \<le> findIndex P xs" by simp
    have k: "findIndex P (x # xs) = findIndex P xs + 1" using False n by (simp add: Let_def)
    have "nat (findIndex P xs + 1) = Suc (nat (findIndex P xs))" using p by simp
    with Cons.prems(2) k have j: "j < Suc (nat (findIndex P xs))" by simp
    show ?thesis
    proof (cases j)
      case 0
      with False show ?thesis by simp
    next
      case (Suc j')
      with j have "j' < nat (findIndex P xs)" by simp
      from Cons.IH [OF n this] Suc show ?thesis by simp
    qed
  qed
qed

text \<open>
  The update in the words of the specification, on a table that has no entry of the key
  and on a table whose first entry of the key is at index \<open>i\<close>.
\<close>

lemma specUpdate_absent:
  assumes "\<forall>x \<in> set T. \<not> (s_mode x = s_mode e \<and> s_difficulty x = s_difficulty e)"
  shows "specUpdate T e = T @ [e]"
  using assms by (induction T) simp_all

lemma specUpdate_present:
  assumes "i < length T" "s_mode (T ! i) = s_mode e \<and> s_difficulty (T ! i) = s_difficulty e"
    and "\<forall>j < i. \<not> (s_mode (T ! j) = s_mode e \<and> s_difficulty (T ! j) = s_difficulty e)"
  shows "specUpdate T e = (if s_score (T ! i) < s_score e then T[i := e] else T)"
  using assms
proof (induction T arbitrary: i)
  case Nil
  then show ?case by simp
next
  case (Cons x xs)
  show ?case
  proof (cases i)
    case 0
    with Cons.prems show ?thesis by simp
  next
    case (Suc i')
    with Cons.prems(3) have x: "\<not> (s_mode x = s_mode e \<and> s_difficulty x = s_difficulty e)"
      by (metis nth_Cons_0 zero_less_Suc)
    have 1: "i' < length xs" using Cons.prems(1) Suc by simp
    have 2: "s_mode (xs ! i') = s_mode e \<and> s_difficulty (xs ! i') = s_difficulty e"
      using Cons.prems(2) Suc by simp
    have 3: "\<forall>j < i'. \<not> (s_mode (xs ! j) = s_mode e \<and> s_difficulty (xs ! j) = s_difficulty e)"
    proof (intro allI impI)
      fix j assume "j < i'"
      then have "Suc j < i" using Suc by simp
      with Cons.prems(3) have "\<not> (s_mode ((x # xs) ! Suc j) = s_mode e \<and>
          s_difficulty ((x # xs) ! Suc j) = s_difficulty e)" by blast
      then show "\<not> (s_mode (xs ! j) = s_mode e \<and> s_difficulty (xs ! j) = s_difficulty e)"
        by simp
    qed
    have "specUpdate (x # xs) e = x # specUpdate xs e" using x by auto
    then show ?thesis using Cons.IH [OF 1 2 3] by (simp add: Suc)
  qed
qed

lemma finalEntry_sel:
  "s_mode (finalEntry r) = mode r" "s_difficulty (finalEntry r) = difficulty r"
  "s_score (finalEntry r) = calculateScore (mode r) (difficulty r) (matches r) (timeLeft r)"
  by (simp_all add: finalEntry_def)

lemma endGame_unfold:
  "bestScores (endGame r w s) =
     (if findIndex (\<lambda>x. s_mode x = mode r \<and> s_difficulty x = difficulty r) (bestScores r) = - 1
      then bestScores r @ [finalEntry r]
      else if s_score (bestScores r !
                 nat (findIndex (\<lambda>x. s_mode x = mode r \<and> s_difficulty x = difficulty r)
                        (bestScores r)))
              < s_score (finalEntry r)
      then (bestScores r)
             [nat (findIndex (\<lambda>x. s_mode x = mode r \<and> s_difficulty x = difficulty r)
                     (bestScores r)) := finalEntry r]
      else bestScores s)"
  by (simp add: endGame_def Let_def finalEntry_def)

text \<open>
  The table that \<^verbatim>\<open>endGame\<close> leaves is the update of the table of the render it reads,
  unless that update changes nothing: then the current table stays.
\<close>

lemma endGame_bestScores:
  "bestScores (endGame r w s) =
     (if specUpdate (bestScores r) (finalEntry r) = bestScores r then bestScores s
      else specUpdate (bestScores r) (finalEntry r))"
proof -
  let ?P = "\<lambda>x. s_mode x = mode r \<and> s_difficulty x = difficulty r"
  let ?k = "findIndex ?P (bestScores r)"
  let ?e = "finalEntry r"
  show ?thesis
  proof (cases "?k = - 1")
    case True
    then have "\<forall>x \<in> set (bestScores r). \<not> ?P x" by (simp only: findIndex_none)
    then have "specUpdate (bestScores r) ?e = bestScores r @ [?e]"
      by (intro specUpdate_absent) (simp add: finalEntry_sel)
    with True show ?thesis by (simp add: endGame_unfold)
  next
    case False
    from findIndex_first [OF False] have k: "nat ?k < length (bestScores r)"
      and p: "?P (bestScores r ! nat ?k)" by simp_all
    have l: "\<forall>j < nat ?k. \<not> ?P (bestScores r ! j)"
      using findIndex_least [OF False] by blast
    have u: "specUpdate (bestScores r) ?e =
        (if s_score (bestScores r ! nat ?k) < s_score ?e then (bestScores r)[nat ?k := ?e]
         else bestScores r)"
      using k p l by (intro specUpdate_present) (simp_all add: finalEntry_sel)
    show ?thesis
    proof (cases "s_score (bestScores r ! nat ?k) < s_score ?e")
      case True
      have "(bestScores r)[nat ?k := ?e] \<noteq> bestScores r"
      proof
        assume "(bestScores r)[nat ?k := ?e] = bestScores r"
        then have "(bestScores r)[nat ?k := ?e] ! nat ?k = bestScores r ! nat ?k" by simp
        then have "?e = bestScores r ! nat ?k" using k by simp
        with True show False by simp
      qed
      with True False u show ?thesis by (simp add: endGame_unfold)
    next
      case n: False
      with False u show ?thesis by (simp add: endGame_unfold)
    qed
  qed
qed

text \<open>
  So when the render has the current table, the table after \<^verbatim>\<open>endGame\<close> is the update
  of the table before.
\<close>

lemma endGame_current_table:
  assumes "bestScores r = bestScores s"
  shows "bestScores (endGame r w s) = specUpdate (bestScores s) (finalEntry r)"
  using assms by (simp add: endGame_bestScores)

text \<open>
  The same is true when the current table is the table of the render updated with an
  entry of the same key and a strictly lower score.
\<close>

lemma specUpdate_twice:
  assumes "s_mode a = s_mode b" "s_difficulty a = s_difficulty b" "s_score a < s_score b"
  shows "specUpdate (specUpdate T a) b = specUpdate T b"
  using assms
proof (induction T)
  case Nil
  then show ?case by simp
next
  case (Cons x xs)
  then show ?case by (cases "s_mode x = s_mode a \<and> s_difficulty x = s_difficulty a") auto
qed

lemma specUpdate_same:
  assumes "s_mode a = s_mode b" "s_difficulty a = s_difficulty b" "s_score a < s_score b"
    and "specUpdate T b = T"
  shows "specUpdate T a = T"
  using assms
proof (induction T)
  case Nil
  then show ?case by simp
next
  case (Cons x xs)
  then show ?case by (cases "s_mode x = s_mode a \<and> s_difficulty x = s_difficulty a") auto
qed

lemma endGame_raced_table:
  assumes "bestScores s = specUpdate (bestScores r) a"
    and "s_mode a = mode r" "s_difficulty a = difficulty r"
    and "s_score a < calculateScore (mode r) (difficulty r) (matches r) (timeLeft r)"
  shows "bestScores (endGame r w s) = specUpdate (bestScores s) (finalEntry r)"
proof -
  have k: "s_mode a = s_mode (finalEntry r)" "s_difficulty a = s_difficulty (finalEntry r)"
    "s_score a < s_score (finalEntry r)"
    using assms(2-4) by (simp_all add: finalEntry_sel)
  have t: "specUpdate (bestScores s) (finalEntry r) = specUpdate (bestScores r) (finalEntry r)"
    unfolding assms(1) using k by (rule specUpdate_twice)
  show ?thesis
  proof (cases "specUpdate (bestScores r) (finalEntry r) = bestScores r")
    case True
    from k True have "specUpdate (bestScores r) a = bestScores r" by (rule specUpdate_same)
    with True t assms(1) show ?thesis by (simp add: endGame_bestScores)
  next
    case False
    with t show ?thesis by (simp add: endGame_bestScores)
  qed
qed

subsection \<open>Runs in which timers fire in the order of their due times\<close>

text \<open>When the effect of lines 87-100 does nothing after a render.\<close>

lemma afterRender_same:
  assumes "gameState h \<noteq> Playing \<or> mode h \<noteq> Chrono \<or> timeLeft h \<noteq> 0"
  shows "afterRender s h = h"
  using assms by (auto simp: afterRender_def timerEffect_def)

lemma afterRender_unchanged:
  assumes "timeLeft h = timeLeft s" "gameState h = gameState s" "mode h = mode s"
  shows "afterRender s h = h"
  using assms by (simp add: afterRender_def)

text \<open>
  \<open>timedOk\<close> is kept by every event, provided that the preview does not end while a
  timeout is pending.
\<close>

lemma pendingOk_cong:
  assumes "pendingOk r s" "gameState s' = gameState s" "bestScores s' = bestScores s"
    and "matches s' = matches s"
    and "gameState s = Playing \<longrightarrow> mode s' = mode s \<and> difficulty s' = difficulty s"
  shows "pendingOk r s'"
proof -
  from assms(1) have b: "12 \<le> length (cards r)" "length (cards r) \<le> 24"
    "mode r = Chrono \<longrightarrow>
        1 \<le> timeLeft r \<and> timeLeft r \<le> int (time (DIFFICULTY_CONFIG (difficulty r)))"
    by (simp_all add: pendingOk_def)
  from assms(1) have
    "gameState s = Playing \<and> bestScores r = bestScores s \<and> matches r = matches s \<and>
        mode r = mode s \<and> difficulty r = difficulty s \<or>
      (gameState s = Finished \<or> gameState s = Setup) \<and> mode r = Chrono \<and>
        matches r = matches s \<and>
        bestScores s = specUpdate (bestScores r) (finalEntry (r\<lparr>timeLeft := 0\<rparr>)) \<or>
      gameState s = Preview \<and> matches s = 0"
    by (simp add: pendingOk_def)
  then have
    "gameState s' = Playing \<and> bestScores r = bestScores s' \<and> matches r = matches s' \<and>
        mode r = mode s' \<and> difficulty r = difficulty s' \<or>
      (gameState s' = Finished \<or> gameState s' = Setup) \<and> mode r = Chrono \<and>
        matches r = matches s' \<and>
        bestScores s' = specUpdate (bestScores r) (finalEntry (r\<lparr>timeLeft := 0\<rparr>)) \<or>
      gameState s' = Preview \<and> matches s' = 0"
    using assms(2-5) by (elim disjE conjE) simp_all
  with b show ?thesis by (simp add: pendingOk_def)
qed

lemma timedOk_frame:
  assumes "timedOk s" "timeouts s' = timeouts s" "gameState s' = gameState s"
    and "bestScores s' = bestScores s" "matches s' = matches s" "cards s' = cards s"
    and "timeLeft s' = timeLeft s"
    and "gameState s \<noteq> Setup \<longrightarrow> mode s' = mode s \<and> difficulty s' = difficulty s"
    and "isChecking s' \<or> \<not> isChecking s"
  shows "timedOk s'"
proof -
  from assms(1) have 1: "pendingFew s" and 2: "clockOk s" and 3: "deckOk s" and 4: "pendingAllOk s"
    by (simp_all add: timedOk_def)
  have "pendingFew s'" using 1 assms(2,3,9) unfolding pendingFew_def by auto
  moreover have "clockOk s'" using 2 assms(3,7,8) unfolding clockOk_def by auto
  moreover have "deckOk s'" using 3 assms(6) unfolding deckOk_def by simp
  moreover have "pendingAllOk s'"
    unfolding pendingAllOk_def
  proof (intro allI impI)
    fix r i j
    assume "MatchTimeout r i j \<in> set (timeouts s')"
    then have "MatchTimeout r i j \<in> set (timeouts s)" using assms(2) by simp
    with 4 have p: "pendingOk r s" unfolding pendingAllOk_def by blast
    have m: "gameState s = Playing \<longrightarrow> mode s' = mode s \<and> difficulty s' = difficulty s"
      using assms(8) by simp
    show "pendingOk r s'" by (rule pendingOk_cong [OF p assms(3) assms(4) assms(5) m])
  qed
  ultimately show ?thesis by (simp add: timedOk_def)
qed


lemma timedOk_parts:
  assumes "timedOk s"
  shows "pendingFew s" "clockOk s" "deckOk s" "pendingAllOk s"
  using assms by (simp_all add: timedOk_def)

lemma timedOk_click:
  assumes "timedOk s" "gameState s = Playing" "index < length (cards s)"
  shows "timedOk (case handleCardClick s index of Inl (e, s') \<Rightarrow> s' | Inr s' \<Rightarrow> s')"
proof (cases "isChecking s \<or> isMatched (cards s ! index) \<or> index \<in> set (flippedIndexes s) \<or>
              length (flippedIndexes s) = 2")
  case True
  then have "handleCardClick s index = Inr s" using assms(3) by (auto simp: handleCardClick_def)
  with assms(1) show ?thesis by simp
next
  case False
  note P = timedOk_parts [OF assms(1)]
  from P(1) False assms(2) have t: "timeouts s = []" by (simp add: pendingFew_def)
  show ?thesis
  proof (cases "length (flippedIndexes s) = 1")
    case l: False
    have "handleCardClick s index = Inr (s\<lparr>flippedIndexes := flippedIndexes s @ [index]\<rparr>)"
      using False assms(3) l by (simp add: handleCardClick_def Let_def)
    moreover have "timedOk (s\<lparr>flippedIndexes := flippedIndexes s @ [index]\<rparr>)"
      by (rule timedOk_frame [OF assms(1)]) simp_all
    ultimately show ?thesis by simp
  next
    case True
    then obtain a where a: "flippedIndexes s = [a]" by (cases "flippedIndexes s") auto
    show ?thesis
    proof (cases "a < length (cards s)")
      case o: False
      have "handleCardClick s index = Inl (TypeError, s\<lparr>flippedIndexes := [a, index], isChecking := True\<rparr>)"
        using False assms(3) a o by (simp add: handleCardClick_def Let_def)
      moreover have "timedOk (s\<lparr>flippedIndexes := [a, index], isChecking := True\<rparr>)"
        by (rule timedOk_frame [OF assms(1)]) simp_all
      ultimately show ?thesis by simp
    next
      case i: True
      let ?t = "if icon (cards s ! a) = icon (cards s ! index)
                then MatchTimeout (render.truncate s) a index else MismatchTimeout"
      let ?c = "s\<lparr>flippedIndexes := [a, index], isChecking := True, timeouts := [?t]\<rparr>"
      have c: "handleCardClick s index = Inr ?c"
        using False assms(3) a i t by (simp add: handleCardClick_def Let_def)
      have 1: "pendingFew ?c" by (simp add: pendingFew_def)
      have 2: "clockOk ?c" using P(2) by (simp add: clockOk_def)
      have 3: "deckOk ?c" using P(3) by (simp add: deckOk_def)
      have d: "12 \<le> length (cards s)" "length (cards s) \<le> 24"
        using P(3) assms(3) by (auto simp: deckOk_def)
      have 4: "pendingAllOk ?c"
        unfolding pendingAllOk_def
      proof (intro allI impI)
        fix r i j
        assume "MatchTimeout r i j \<in> set (timeouts ?c)"
        then have "r = render.truncate s" by (simp split: if_splits)
        then show "pendingOk r ?c"
          using d P(2) assms(2) by (simp add: pendingOk_def clockOk_def render.defs)
      qed
      from 1 2 3 4 have "timedOk ?c" by (simp add: timedOk_def)
      with c show ?thesis by simp
    qed
  qed
qed

lemma timedOk_tick:
  assumes "timedOk s" "gameState s = Playing" "mode s = Chrono"
  shows "timedOk (afterRender s (s\<lparr>timeLeft := timeLeft s - 1\<rparr>))"
proof -
  note P = timedOk_parts [OF assms(1)]
  let ?h = "s\<lparr>timeLeft := timeLeft s - 1\<rparr>"
  from P(2) assms(2,3) have t: "1 \<le> timeLeft s" "timeLeft s \<le> int (time (DIFFICULTY_CONFIG (difficulty s)))"
    by (simp_all add: clockOk_def)
  show ?thesis
  proof (cases "timeLeft s = 1")
    case False
    then have "afterRender s ?h = ?h" by (intro afterRender_same) simp
    moreover have "timedOk ?h"
    proof -
      have "pendingFew ?h" using P(1) by (simp add: pendingFew_def)
      moreover have "clockOk ?h" using t False by (simp add: clockOk_def)
      moreover have "deckOk ?h" using P(3) by (simp add: deckOk_def)
      moreover have "pendingAllOk ?h"
        unfolding pendingAllOk_def
      proof (intro allI impI)
        fix r i j
        assume "MatchTimeout r i j \<in> set (timeouts ?h)"
        then have "MatchTimeout r i j \<in> set (timeouts s)" by simp
        with P(4) have p: "pendingOk r s" unfolding pendingAllOk_def by blast
        show "pendingOk r ?h" by (rule pendingOk_cong [OF p]) simp_all
      qed
      ultimately show ?thesis by (simp add: timedOk_def)
    qed
    ultimately show ?thesis by simp
  next
    case True
    let ?r0 = "render.truncate ?h"
    have e: "afterRender s ?h = endGame ?r0 False ?h"
      using True assms(2,3) by (simp add: afterRender_def timerEffect_def)
    let ?s' = "endGame ?r0 False ?h"
    have f: "timeouts ?s' = timeouts s" "gameState ?s' = Finished" "cards ?s' = cards s"
      "matches ?s' = matches s" "isChecking ?s' = isChecking s"
      by (simp_all add: endGame_frame)
    have b: "bestScores ?s' = specUpdate (bestScores s) (finalEntry ?r0)"
      using endGame_current_table [of ?r0 ?h False] by (simp add: render.defs)
    have 1: "pendingFew ?s'" using P(1) f by (simp add: pendingFew_def)
    have 2: "clockOk ?s'" using f by (simp add: clockOk_def)
    have 3: "deckOk ?s'" using P(3) f by (simp add: deckOk_def)
    have 4: "pendingAllOk ?s'"
      unfolding pendingAllOk_def
    proof (intro allI impI)
      fix r i j
      assume "MatchTimeout r i j \<in> set (timeouts ?s')"
      then have "MatchTimeout r i j \<in> set (timeouts s)" using f(1) by simp
      with P(4) have p: "pendingOk r s" unfolding pendingAllOk_def by blast
      with assms(2) have A: "bestScores r = bestScores s" "matches r = matches s"
        "mode r = mode s" "difficulty r = difficulty s"
        by (simp_all add: pendingOk_def)
      have "finalEntry ?r0 = finalEntry (r\<lparr>timeLeft := 0\<rparr>)"
        using A True by (simp add: finalEntry_def render.defs)
      with b A(1) have "bestScores ?s' = specUpdate (bestScores r) (finalEntry (r\<lparr>timeLeft := 0\<rparr>))"
        by simp
      moreover from p have "12 \<le> length (cards r)" "length (cards r) \<le> 24"
        "mode r = Chrono \<longrightarrow>
          1 \<le> timeLeft r \<and> timeLeft r \<le> int (time (DIFFICULTY_CONFIG (difficulty r)))"
        by (simp_all add: pendingOk_def)
      ultimately show "pendingOk r ?s'"
        using f A assms(3) by (simp add: pendingOk_def)
    qed
    from 1 2 3 4 show ?thesis by (simp add: e timedOk_def)
  qed
qed


lemma handleCardClick_clock:
  "timeLeft (case handleCardClick s index of Inl (e, s') \<Rightarrow> s' | Inr s' \<Rightarrow> s') = timeLeft s \<and>
   gameState (case handleCardClick s index of Inl (e, s') \<Rightarrow> s' | Inr s' \<Rightarrow> s') = gameState s \<and>
   mode (case handleCardClick s index of Inl (e, s') \<Rightarrow> s' | Inr s' \<Rightarrow> s') = mode s"
  by (simp add: handleCardClick_def Let_def)

lemma runTimeout_clock:
  "timeLeft (runTimeout t s) = timeLeft s \<and> mode (runTimeout t s) = mode s \<and>
   difficulty (runTimeout t s) = difficulty s \<and>
   (gameState (runTimeout t s) = gameState s \<or> gameState (runTimeout t s) = Finished) \<and>
   timeouts (runTimeout t s) = timeouts s \<and>
   length (cards (runTimeout t s)) =
     (case t of MatchTimeout r i j \<Rightarrow> length (cards r) | MismatchTimeout \<Rightarrow> length (cards s))"
  by (cases t) (simp_all add: Let_def endGame_frame)

lemma timedOk_timeout:
  assumes "timedOk s" "k < length (timeouts s)"
  shows "timedOk (afterRender s (runTimeout (timeouts s ! k)
           (s\<lparr>timeouts := take k (timeouts s) @ drop (Suc k) (timeouts s)\<rparr>)))"
proof -
  note P = timedOk_parts [OF assms(1)]
  from P(1) assms(2) have k: "k = 0" by (simp add: pendingFew_def)
  from P(1) assms(2) obtain t where one: "timeouts s = [t]"
    by (cases "timeouts s") (auto simp: pendingFew_def)
  let ?s = "s\<lparr>timeouts := []\<rparr>"
  let ?h = "runTimeout t ?s"
  have s: "s\<lparr>timeouts := take k (timeouts s) @ drop (Suc k) (timeouts s)\<rparr> = ?s"
    by (simp add: k one)
  have t: "timeouts s ! k = t" by (simp add: k one)
  have f: "timeouts ?h = []" using runTimeout_clock [of t ?s] by simp
  have c: "timeLeft ?h = timeLeft s" "mode ?h = mode s" "difficulty ?h = difficulty s"
    "gameState ?h = gameState s \<or> gameState ?h = Finished"
    using runTimeout_clock [of t ?s] by simp_all
  have a: "afterRender s ?h = ?h"
  proof (cases "gameState ?h = Finished")
    case True
    then show ?thesis by (intro afterRender_same) simp
  next
    case False
    with c(4) have "gameState ?h = gameState s" by simp
    with c(1,2) show ?thesis by (intro afterRender_unchanged)
  qed
  have 1: "pendingFew ?h" using f by (simp add: pendingFew_def)
  have 2: "clockOk ?h" using P(2) c unfolding clockOk_def by auto
  have 3: "deckOk ?h"
  proof (cases t)
    case MismatchTimeout
    then have "cards ?h = cards s" by simp
    with P(3) show ?thesis by (simp add: deckOk_def)
  next
    case (MatchTimeout r i j)
    then have "MatchTimeout r i j \<in> set (timeouts s)" using one by simp
    with P(4) have "pendingOk r s" unfolding pendingAllOk_def by blast
    then have "12 \<le> length (cards r)" "length (cards r) \<le> 24" by (simp_all add: pendingOk_def)
    moreover have "length (cards ?h) = length (cards r)"
      using runTimeout_clock [of t ?s] MatchTimeout by simp
    ultimately show ?thesis by (simp add: deckOk_def)
  qed
  have 4: "pendingAllOk ?h" using f by (simp add: pendingAllOk_def)
  from 1 2 3 4 show ?thesis unfolding s t a by (simp add: timedOk_def)
qed

lemma timedOk_start:
  assumes "timedOk s" "gameState s = Setup"
    and "isPermutation order (2 * pairs (DIFFICULTY_CONFIG (difficulty s)))"
  shows "timedOk (afterRender s (startGame order s))"
proof -
  note P = timedOk_parts [OF assms(1)]
  let ?h = "startGame order s"
  have f: "gameState ?h = Preview" "timeouts ?h = timeouts s" "matches ?h = 0"
    "cards ?h = createCards (difficulty s) order" "mode ?h = mode s"
    "difficulty ?h = difficulty s"
    "timeLeft ?h = (if mode s = Chrono then int (time (DIFFICULTY_CONFIG (difficulty s))) else 0)"
    by (simp_all add: startGame_def Let_def)
  have a: "afterRender s ?h = ?h" using f(1) by (intro afterRender_same) simp
  have l: "length (cards ?h) = 2 * pairs (DIFFICULTY_CONFIG (difficulty s))"
    using createCards_props [OF assms(3)] f(4) by simp
  have 1: "pendingFew ?h" using P(1) f by (simp add: pendingFew_def)
  have 2: "clockOk ?h" using f config_bounds(3) [of "difficulty s"] by (simp add: clockOk_def)
  have 3: "deckOk ?h"
    using l config_bounds(5,6) [of "difficulty s"] by (simp add: deckOk_def)
  have 4: "pendingAllOk ?h"
    unfolding pendingAllOk_def
  proof (intro allI impI)
    fix r i j
    assume "MatchTimeout r i j \<in> set (timeouts ?h)"
    then have "MatchTimeout r i j \<in> set (timeouts s)" using f(2) by simp
    with P(4) have "pendingOk r s" unfolding pendingAllOk_def by blast
    then show "pendingOk r ?h" using f(1,3) by (simp add: pendingOk_def)
  qed
  from 1 2 3 4 show ?thesis unfolding a by (simp add: timedOk_def)
qed

lemma timedOk_preview:
  assumes "timedOk s" "gameState s = Preview" "timeouts s = []"
  shows "timedOk (afterRender s (s\<lparr>gameState := Playing, flippedIndexes := []\<rparr>))"
proof -
  note P = timedOk_parts [OF assms(1)]
  let ?h = "s\<lparr>gameState := Playing, flippedIndexes := []\<rparr>"
  have "mode ?h \<noteq> Chrono \<or> timeLeft ?h \<noteq> 0"
    using P(2) assms(2) by (auto simp: clockOk_def)
  then have a: "afterRender s ?h = ?h" by (intro afterRender_same) simp
  have 1: "pendingFew ?h" using assms(3) by (simp add: pendingFew_def)
  have 2: "clockOk ?h" using P(2) assms(2) by (simp add: clockOk_def)
  have 3: "deckOk ?h" using P(3) by (simp add: deckOk_def)
  have 4: "pendingAllOk ?h" using assms(3) by (simp add: pendingAllOk_def)
  from 1 2 3 4 show ?thesis unfolding a by (simp add: timedOk_def)
qed

lemma timedOk_rejouer:
  assumes "timedOk s" "gameState s = Finished"
  shows "timedOk (afterRender s (s\<lparr>gameState := Setup\<rparr>))"
proof -
  note P = timedOk_parts [OF assms(1)]
  let ?h = "s\<lparr>gameState := Setup\<rparr>"
  have a: "afterRender s ?h = ?h" by (intro afterRender_same) simp
  have 1: "pendingFew ?h" using P(1) by (simp add: pendingFew_def)
  have 2: "clockOk ?h" by (simp add: clockOk_def)
  have 3: "deckOk ?h" using P(3) by (simp add: deckOk_def)
  have 4: "pendingAllOk ?h"
    unfolding pendingAllOk_def
  proof (intro allI impI)
    fix r i j
    assume "MatchTimeout r i j \<in> set (timeouts ?h)"
    then have "MatchTimeout r i j \<in> set (timeouts s)" by simp
    with P(4) have "pendingOk r s" unfolding pendingAllOk_def by blast
    then show "pendingOk r ?h" using assms(2) by (simp add: pendingOk_def)
  qed
  from 1 2 3 4 show ?thesis unfolding a by (simp add: timedOk_def)
qed

lemma timedOk_select:
  assumes "timedOk s" "gameState s = Setup" "h = s\<lparr>mode := m\<rparr> \<or> h = s\<lparr>difficulty := d\<rparr>"
  shows "timedOk (afterRender s h)"
proof -
  have g: "gameState h = Setup" using assms(2,3) by auto
  then have a: "afterRender s h = h" by (intro afterRender_same) simp
  have "timedOk h"
    using assms(3)
  proof
    assume h: "h = s\<lparr>mode := m\<rparr>"
    show ?thesis unfolding h by (rule timedOk_frame [OF assms(1)]) (simp_all add: assms(2))
  next
    assume h: "h = s\<lparr>difficulty := d\<rparr>"
    show ?thesis unfolding h by (rule timedOk_frame [OF assms(1)]) (simp_all add: assms(2))
  qed
  then show ?thesis by (simp add: a)
qed

lemma dispatch_timedOk:
  assumes "timedOk s" "dispatch e s = Some s'" "e = PreviewTimeout \<longrightarrow> timeouts s = []"
  shows "timedOk s'"
proof (cases e)
  case (SelectMode m)
  with assms(2) have "gameState s = Setup" "s' = afterRender s (s\<lparr>mode := m\<rparr>)"
    by (auto simp: dispatch_def split: if_splits)
  then show ?thesis using timedOk_select [OF assms(1), of "s\<lparr>mode := m\<rparr>" m] by simp
next
  case (SelectDifficulty d)
  with assms(2) have "gameState s = Setup" "s' = afterRender s (s\<lparr>difficulty := d\<rparr>)"
    by (auto simp: dispatch_def split: if_splits)
  then show ?thesis using timedOk_select [OF assms(1), of "s\<lparr>difficulty := d\<rparr>" _ d] by simp
next
  case (StartGame order)
  with assms(2) have "gameState s = Setup"
    "isPermutation order (2 * pairs (DIFFICULTY_CONFIG (difficulty s)))"
    "s' = afterRender s (startGame order s)"
    by (auto simp: dispatch_def split: if_splits)
  then show ?thesis using timedOk_start [OF assms(1)] by simp
next
  case PreviewTimeout
  with assms(2) have "gameState s = Preview"
    "s' = afterRender s (s\<lparr>gameState := Playing, flippedIndexes := []\<rparr>)"
    by (auto simp: dispatch_def split: if_splits)
  then show ?thesis using timedOk_preview [OF assms(1)] assms(3) PreviewTimeout by simp
next
  case Tick
  with assms(2) have "gameState s = Playing" "mode s = Chrono"
    "s' = afterRender s (s\<lparr>timeLeft := timeLeft s - 1\<rparr>)"
    by (auto simp: dispatch_def split: if_splits)
  then show ?thesis using timedOk_tick [OF assms(1)] by simp
next
  case (CardClick index)
  let ?c = "case onCardClick s index of Inl (e, s') \<Rightarrow> s' | Inr s' \<Rightarrow> s'"
  from CardClick assms(2) have i: "index < length (cards s)" and s': "s' = afterRender s ?c"
    by (auto simp: dispatch_def split: if_splits)
  show ?thesis
  proof (cases "gameState s = Playing")
    case False
    then have "?c = s" by (simp add: onCardClick_def)
    then have "s' = s" using s' by (simp add: afterRender_def)
    with assms(1) show ?thesis by simp
  next
    case True
    then have c: "?c = (case handleCardClick s index of Inl (e, s') \<Rightarrow> s' | Inr s' \<Rightarrow> s')"
      by (simp add: onCardClick_def)
    have "afterRender s ?c = ?c"
      unfolding c using handleCardClick_clock [of s index] by (intro afterRender_unchanged) simp_all
    then show ?thesis using timedOk_click [OF assms(1) True i] s' c by simp
  qed
next
  case (Timeout k)
  with assms(2) have "k < length (timeouts s)"
    "s' = afterRender s (runTimeout (timeouts s ! k)
           (s\<lparr>timeouts := take k (timeouts s) @ drop (Suc k) (timeouts s)\<rparr>))"
    by (auto simp: dispatch_def split: if_splits)
  then show ?thesis using timedOk_timeout [OF assms(1)] by simp
next
  case Rejouer
  with assms(2) have "gameState s = Finished" "s' = afterRender s (s\<lparr>gameState := Setup\<rparr>)"
    by (auto simp: dispatch_def split: if_splits)
  then show ?thesis using timedOk_rejouer [OF assms(1)] by simp
qed

lemma timedOk_initialState: "timedOk (initialState\<lparr>bestScores := table\<rparr>)"
  by (simp add: timedOk_def pendingFew_def clockOk_def deckOk_def pendingAllOk_def
      initialState_def)

lemma reachableTimed_timedOk: "reachableTimed s \<Longrightarrow> timedOk s"
proof (induction rule: reachableTimed.induct)
  case (mountedTimed table)
  show ?case by (rule timedOk_initialState)
next
  case (stepTimed s e s')
  from stepTimed.IH stepTimed.hyps(2) stepTimed.hyps(3) show ?case by (rule dispatch_timedOk)
qed

lemma reachableTimed_keysOk: "reachableTimed s \<Longrightarrow> keysOk s"
proof (induction rule: reachableTimed.induct)
  case (mountedTimed table)
  then show ?case by (simp add: keysOk_def initialState_def)
next
  case (stepTimed s e s')
  from stepTimed.hyps(2) stepTimed.IH show ?case by (rule dispatch_keysOk)
qed


text \<open>In a table of distinct keys, the entry of a key is the first one of that key.\<close>

lemma specUpdate_distinct:
  assumes "distinct (map (\<lambda>x. (s_mode x, s_difficulty x)) T)" "i < length T"
    and "s_mode (T ! i) = s_mode e \<and> s_difficulty (T ! i) = s_difficulty e"
  shows "specUpdate T e = (if s_score (T ! i) < s_score e then T[i := e] else T)"
  using assms(2,3)
proof (rule specUpdate_present)
  show "\<forall>j<i. \<not> (s_mode (T ! j) = s_mode e \<and> s_difficulty (T ! j) = s_difficulty e)"
  proof (intro allI impI notI)
    fix j
    assume j: "j < i" and k: "s_mode (T ! j) = s_mode e \<and> s_difficulty (T ! j) = s_difficulty e"
    let ?K = "map (\<lambda>x. (s_mode x, s_difficulty x)) T"
    have "?K ! j = ?K ! i" using j assms(2,3) k by simp
    moreover have "j < length ?K" "i < length ?K" using j assms(2) by simp_all
    ultimately have "j = i" using nth_eq_iff_index_eq [OF assms(1), of j i] by blast
    with j show False by simp
  qed
qed

text \<open>The state after an event that ends a game, for the two kinds of such events.\<close>

lemma gameEnd_tick:
  assumes "gameEnd Tick s = Some r" "dispatch Tick s = Some s'"
  shows "s' = endGame r False (s\<lparr>timeLeft := 0\<rparr>) \<and> r = render.truncate (s\<lparr>timeLeft := 0\<rparr>)"
proof -
  from assms(1) have g: "gameState s = Playing" "mode s = Chrono" "timeLeft s = 1"
    and r: "r = render.truncate (s\<lparr>timeLeft := 0\<rparr>)"
    by (simp_all split: if_splits)
  from assms(2) g have "s' = afterRender s (s\<lparr>timeLeft := 0\<rparr>)" by (simp add: dispatch_def)
  then show ?thesis using g r by (simp add: afterRender_def timerEffect_def)
qed

lemma gameEnd_timeout:
  assumes "gameEnd (Timeout k) s = Some r" "dispatch (Timeout k) s = Some s'"
  shows "\<exists>i j s1. MatchTimeout r i j \<in> set (timeouts s) \<and>
           2 * (matches s + 1) = length (cards r) \<and> bestScores s1 = bestScores s \<and>
           s' = (endGame r True s1)\<lparr>matches := matches s + 1, isChecking := False\<rparr>"
proof -
  from assms(1) have k: "k < length (timeouts s)" by (simp split: if_splits)
  with assms(1) obtain i j where t: "timeouts s ! k = MatchTimeout r i j"
    and w: "2 * (matches s + 1) = length (cards r)"
    by (auto split: timeout.splits if_splits)
  let ?s = "s\<lparr>timeouts := take k (timeouts s) @ drop (Suc k) (timeouts s)\<rparr>"
  let ?s1 = "?s\<lparr>cards := map (\<lambda>(index, card). if index = i \<or> index = j
                 then card\<lparr>isMatched := True\<rparr> else card) (enumerate 0 (cards r)),
               flippedIndexes := []\<rparr>"
  let ?h = "(endGame r True ?s1)\<lparr>matches := matches s + 1, isChecking := False\<rparr>"
  have h: "runTimeout (MatchTimeout r i j) ?s = ?h" using w by (simp add: Let_def)
  have "gameState ?h = Finished" by (simp add: endGame_frame)
  then have "afterRender s ?h = ?h" by (intro afterRender_same) simp
  with assms(2) k t h have "s' = ?h" by (simp add: dispatch_def)
  moreover have "MatchTimeout r i j \<in> set (timeouts s)" using k t by (metis nth_mem)
  moreover have "bestScores ?s1 = bestScores s" by simp
  ultimately show ?thesis using w by blast
qed

lemma endGame_score: "score (endGame r w s) = s_score (finalEntry r)"
  by (simp add: endGame_def Let_def finalEntry_def)

text \<open>
  At the last tick the render that \<^verbatim>\<open>endGame\<close> reads has the current table. At a match
  timeout that completes the deck, either the game has gone on since the click and the
  render of the timeout has the current table, or the countdown has ended the game in
  between. In that case the loss has put an entry with the match score of the count in
  the table (no time left, no bonus), and the final score of the win is computed from
  the same count with one second or more left: it is strictly above, so that the update
  of the table of the render is also the update of the current table.
\<close>

lemma gameEnd_specUpdate:
  assumes "timedOk s" "dispatch e s = Some s'" "gameEnd e s = Some r"
  shows "bestScores s' = specUpdate (bestScores s) (finalEntry r) \<and>
         score s' = s_score (finalEntry r) \<and> gameState s' = Finished"
proof (cases e)
  case Tick
  from gameEnd_tick [OF assms(3) [unfolded Tick] assms(2) [unfolded Tick]]
  have s': "s' = endGame r False (s\<lparr>timeLeft := 0\<rparr>)"
    and r: "r = render.truncate (s\<lparr>timeLeft := 0\<rparr>)" by simp_all
  have "bestScores r = bestScores (s\<lparr>timeLeft := 0\<rparr>)" by (simp add: r render.defs)
  from endGame_current_table [OF this] show ?thesis
    unfolding s' by (simp add: endGame_score endGame_frame)
next
  case (Timeout k)
  from gameEnd_timeout [OF assms(3) [unfolded Timeout] assms(2) [unfolded Timeout]]
  obtain i j s1 where t: "MatchTimeout r i j \<in> set (timeouts s)"
    and w: "2 * (matches s + 1) = length (cards r)" and b: "bestScores s1 = bestScores s"
    and s': "s' = (endGame r True s1)\<lparr>matches := matches s + 1, isChecking := False\<rparr>"
    by blast
  from timedOk_parts(4) [OF assms(1)] t have p: "pendingOk r s"
    unfolding pendingAllOk_def by blast
  then have l: "12 \<le> length (cards r)" "length (cards r) \<le> 24"
    and c: "mode r = Chrono \<longrightarrow>
        1 \<le> timeLeft r \<and> timeLeft r \<le> int (time (DIFFICULTY_CONFIG (difficulty r)))"
    by (simp_all add: pendingOk_def)
  from p have "gameState s = Playing \<and> bestScores r = bestScores s \<or>
      mode r = Chrono \<and> matches r = matches s \<and>
        bestScores s = specUpdate (bestScores r) (finalEntry (r\<lparr>timeLeft := 0\<rparr>)) \<or>
      matches s = 0"
    unfolding pendingOk_def by (elim conjE disjE) simp_all
  then have "bestScores (endGame r True s1) = specUpdate (bestScores s1) (finalEntry r)"
  proof (elim disjE conjE)
    assume "bestScores r = bestScores s"
    with b have "bestScores r = bestScores s1" by simp
    then show ?thesis by (rule endGame_current_table)
  next
    assume m: "mode r = Chrono" and n: "matches r = matches s"
      and u: "bestScores s = specUpdate (bestScores r) (finalEntry (r\<lparr>timeLeft := 0\<rparr>))"
    let ?a = "finalEntry (r\<lparr>timeLeft := 0\<rparr>)"
    have 1: "bestScores s1 = specUpdate (bestScores r) ?a" using u b by simp
    have 2: "s_mode ?a = mode r" "s_difficulty ?a = difficulty r" by (simp_all add: finalEntry_def)
    have "2 \<le> matches r" "matches r \<le> 12" using w l n by simp_all
    moreover have "1 \<le> timeLeft r" "timeLeft r \<le> int (time (DIFFICULTY_CONFIG (difficulty r)))"
      using c m by simp_all
    ultimately have "calculateScore Chrono (difficulty r) (matches r) 0
        < calculateScore Chrono (difficulty r) (matches r) (timeLeft r)"
      by (rule calculateScore_chrono_bonus)
    then have 3: "s_score ?a < calculateScore (mode r) (difficulty r) (matches r) (timeLeft r)"
      using m by (simp add: finalEntry_def)
    from 1 2 3 show ?thesis by (rule endGame_raced_table)
  next
    assume "matches s = 0"
    with w l show ?thesis by simp
  qed
  then show ?thesis unfolding s' by (simp add: b endGame_score endGame_frame)
qed (use assms(3) in simp_all)

text \<open>No other event changes the table.\<close>

lemma handleCardClick_table:
  "bestScores (case handleCardClick s index of Inl (e, s') \<Rightarrow> s' | Inr s' \<Rightarrow> s') = bestScores s"
  by (simp add: handleCardClick_def Let_def)

lemma table_kept:
  assumes "timedOk s" "dispatch e s = Some s'" "gameEnd e s = None"
  shows "bestScores s' = bestScores s"
proof -
  from assms(2) obtain h where h: "handle e s = Some h" and s': "s' = afterRender s h"
    by (auto simp: dispatch_def)
  have "afterRender s h = h \<and> bestScores h = bestScores s"
  proof (cases e)
    case (SelectMode m)
    with h have "gameState h = Setup" "bestScores h = bestScores s" by (auto split: if_splits)
    then show ?thesis by (simp add: afterRender_same)
  next
    case (SelectDifficulty d)
    with h have "gameState h = Setup" "bestScores h = bestScores s" by (auto split: if_splits)
    then show ?thesis by (simp add: afterRender_same)
  next
    case (StartGame order)
    with h have "gameState h = Preview" "bestScores h = bestScores s"
      by (auto simp: startGame_def Let_def split: if_splits)
    then show ?thesis by (simp add: afterRender_same)
  next
    case PreviewTimeout
    with h have g: "gameState s = Preview" and e: "h = s\<lparr>gameState := Playing, flippedIndexes := []\<rparr>"
      by (auto split: if_splits)
    from timedOk_parts(2) [OF assms(1)] g have "mode h \<noteq> Chrono \<or> timeLeft h \<noteq> 0"
      unfolding e by (auto simp: clockOk_def)
    then have "afterRender s h = h" by (intro afterRender_same) simp
    then show ?thesis by (simp add: e)
  next
    case Tick
    with h have g: "gameState s = Playing" "mode s = Chrono" "0 < timeLeft s"
      and e: "h = s\<lparr>timeLeft := timeLeft s - 1\<rparr>"
      by (auto split: if_splits)
    from assms(3) Tick g have "timeLeft s \<noteq> 1" by (simp split: if_splits)
    then have "timeLeft h \<noteq> 0" by (simp add: e)
    then have "afterRender s h = h" by (intro afterRender_same) simp
    then show ?thesis by (simp add: e)
  next
    case (CardClick index)
    let ?c = "case handleCardClick s index of Inl (e, s') \<Rightarrow> s' | Inr s' \<Rightarrow> s'"
    from CardClick h have e: "h = (if gameState s = Playing then ?c else s)"
      by (auto simp: onCardClick_def split: if_splits)
    have "timeLeft h = timeLeft s" "gameState h = gameState s" "mode h = mode s"
      "bestScores h = bestScores s"
      unfolding e using handleCardClick_clock [of s index] handleCardClick_table [of s index]
      by simp_all
    then show ?thesis by (simp add: afterRender_unchanged)
  next
    case (Timeout k)
    let ?s = "s\<lparr>timeouts := take k (timeouts s) @ drop (Suc k) (timeouts s)\<rparr>"
    from Timeout h have k: "k < length (timeouts s)" and e: "h = runTimeout (timeouts s ! k) ?s"
      by (auto split: if_splits)
    have "timeLeft h = timeLeft s \<and> gameState h = gameState s \<and> mode h = mode s \<and>
        bestScores h = bestScores s"
    proof (cases "timeouts s ! k")
      case MismatchTimeout
      then show ?thesis by (simp add: e)
    next
      case (MatchTimeout r i j)
      with assms(3) Timeout k have "2 * (matches s + 1) \<noteq> length (cards r)"
        by (simp split: if_splits)
      then show ?thesis by (simp add: e MatchTimeout Let_def)
    qed
    then show ?thesis by (simp add: afterRender_unchanged)
  next
    case Rejouer
    with h have "gameState h = Setup" "bestScores h = bestScores s" by (auto split: if_splits)
    then show ?thesis by (simp add: afterRender_same)
  qed
  then show ?thesis by (simp add: s')
qed

text \<open>The states of \<open>runTimed\<close> are states of \<open>reachableTimed\<close>.\<close>

lemma reachableTimed_initialState: "reachableTimed initialState"
proof -
  have "reachableTimed (initialState\<lparr>bestScores := []\<rparr>)"
    by (rule reachableTimed.mountedTimed) simp
  then show ?thesis by (simp add: initialState_def)
qed

lemma reachableTimed_runTimed:
  assumes "reachableTimed s" "runTimed es s = Some s'"
  shows "reachableTimed s'"
  using assms
proof (induction es arbitrary: s)
  case Nil
  then show ?case by simp
next
  case (Cons e es)
  from Cons.prems(2) have p: "e = PreviewTimeout \<longrightarrow> timeouts s = []"
    by (auto split: if_splits)
  with Cons.prems(2) obtain t where t: "dispatch e s = Some t" and r: "runTimed es t = Some s'"
    by (auto split: option.splits if_splits)
  from Cons.prems(1) t p have "reachableTimed t" by (rule reachableTimed.stepTimed)
  then show ?case using r by (rule Cons.IH)
qed

lemma reachableTimed_the_run:
  assumes "runTimed es initialState \<noteq> None"
  shows "reachableTimed (the (runTimed es initialState))"
  using assms reachableTimed_runTimed [OF reachableTimed_initialState] by auto

text \<open>
  C4. In every run in which timers fire in the order of their due times, at every event
  that ends a game (the last tick of the countdown, or the match timeout that completes
  the deck; \<open>gameEnd\<close> gives the render \<open>r\<close> that \<^verbatim>\<open>endGame\<close> reads), the table after the
  event is the table before the event, updated as the specification says with the entry
  of the final score: where the table before has no entry of the mode and difficulty of
  the game, the new entry is added; where it has one, at index \<open>i\<close>, the new entry takes
  its place if the score of that entry is strictly below the final score, and the table
  stays as it is otherwise. The final score is the score that the state shows after the
  event, and the keys of the table after the event are distinct. (From which count and
  time the final score is computed is the subject of C2.)
\<close>

theorem gameEnd_table:
  assumes "reachableTimed s" "dispatch e s = Some s'" "gameEnd e s = Some r"
  shows "bestScores s' = specUpdate (bestScores s) (finalEntry r) \<and>
         ((\<forall>x \<in> set (bestScores s).
              \<not> (s_mode x = mode r \<and> s_difficulty x = difficulty r)) \<longrightarrow>
            bestScores s' = bestScores s @ [finalEntry r]) \<and>
         (\<forall>i < length (bestScores s).
            s_mode (bestScores s ! i) = mode r \<and> s_difficulty (bestScores s ! i) = difficulty r \<longrightarrow>
            bestScores s' =
              (if s_score (bestScores s ! i) < score s' then (bestScores s)[i := finalEntry r]
               else bestScores s)) \<and>
         score s' = calculateScore (mode r) (difficulty r) (matches r) (timeLeft r) \<and>
         distinct (map (\<lambda>x. (s_mode x, s_difficulty x)) (bestScores s'))"
proof -
  from assms(1) have t: "timedOk s" by (rule reachableTimed_timedOk)
  from assms(1) have k: "keysOk s" by (rule reachableTimed_keysOk)
  from assms(2) k have "keysOk s'" by (rule dispatch_keysOk)
  then have 5: "distinct (map (\<lambda>x. (s_mode x, s_difficulty x)) (bestScores s'))"
    by (simp add: keysOk_def)
  from k have d: "distinct (map (\<lambda>x. (s_mode x, s_difficulty x)) (bestScores s))"
    by (simp add: keysOk_def)
  from gameEnd_specUpdate [OF t assms(2) assms(3)]
  have 1: "bestScores s' = specUpdate (bestScores s) (finalEntry r)"
    and 4: "score s' = s_score (finalEntry r)" by simp_all
  have 2: "(\<forall>x \<in> set (bestScores s). \<not> (s_mode x = mode r \<and> s_difficulty x = difficulty r)) \<longrightarrow>
      bestScores s' = bestScores s @ [finalEntry r]"
  proof
    assume "\<forall>x \<in> set (bestScores s). \<not> (s_mode x = mode r \<and> s_difficulty x = difficulty r)"
    then have "specUpdate (bestScores s) (finalEntry r) = bestScores s @ [finalEntry r]"
      by (intro specUpdate_absent) (simp add: finalEntry_sel)
    with 1 show "bestScores s' = bestScores s @ [finalEntry r]" by simp
  qed
  have 3: "\<forall>i < length (bestScores s).
      s_mode (bestScores s ! i) = mode r \<and> s_difficulty (bestScores s ! i) = difficulty r \<longrightarrow>
      bestScores s' =
        (if s_score (bestScores s ! i) < score s' then (bestScores s)[i := finalEntry r]
         else bestScores s)"
  proof (intro allI impI)
    fix i
    assume i: "i < length (bestScores s)"
      and "s_mode (bestScores s ! i) = mode r \<and> s_difficulty (bestScores s ! i) = difficulty r"
    then have "s_mode (bestScores s ! i) = s_mode (finalEntry r) \<and>
        s_difficulty (bestScores s ! i) = s_difficulty (finalEntry r)"
      by (simp add: finalEntry_sel)
    from specUpdate_distinct [OF d i this] 1 4
    show "bestScores s' =
        (if s_score (bestScores s ! i) < score s' then (bestScores s)[i := finalEntry r]
         else bestScores s)" by simp
  qed
  from 1 2 3 4 5 show ?thesis by (simp only: finalEntry_sel simp_thms)
qed

text \<open>
  In \<open>raceFacile\<close> the loss has written an entry of 500 points (five pairs, no time left)
  while the timeout of the last pair was pending. That timeout then ends the game as a
  win with a final score of 504 points, computed with one second left: the entry of 500
  points is replaced.
\<close>

theorem gameEnd_table_witness:
  "reachableTimed (the (runTimed raceFacile initialState)) \<and>
   gameEnd (Timeout 0) (the (runTimed raceFacile initialState)) \<noteq> None \<and>
   bestScores (the (runTimed raceFacile initialState)) =
     [\<lparr>s_mode = Chrono, s_difficulty = Facile, s_score = 500, s_time = Some 0\<rparr>] \<and>
   map_option bestScores (dispatch (Timeout 0) (the (runTimed raceFacile initialState))) =
     Some [\<lparr>s_mode = Chrono, s_difficulty = Facile, s_score = 504, s_time = Some 1\<rparr>] \<and>
   map_option bestScores (dispatch (Timeout 0) (the (runTimed raceFacile initialState))) =
     Some (specUpdate (bestScores (the (runTimed raceFacile initialState)))
       (finalEntry (the (gameEnd (Timeout 0) (the (runTimed raceFacile initialState))))))"
proof -
  let ?s = "the (runTimed raceFacile initialState)"
  have "runTimed raceFacile initialState \<noteq> None" by code_simp
  then have r: "reachableTimed ?s" by (rule reachableTimed_the_run)
  have "gameEnd (Timeout 0) ?s \<noteq> None \<and> bestScores ?s =
     [\<lparr>s_mode = Chrono, s_difficulty = Facile, s_score = 500, s_time = Some 0\<rparr>]"
    by code_simp
  then have g: "gameEnd (Timeout 0) ?s \<noteq> None" and b: "bestScores ?s =
     [\<lparr>s_mode = Chrono, s_difficulty = Facile, s_score = 500, s_time = Some 0\<rparr>]"
    by blast+
  from g obtain r0 where r0: "gameEnd (Timeout 0) ?s = Some r0" by blast
  have a: "map_option bestScores (dispatch (Timeout 0) ?s) =
     Some [\<lparr>s_mode = Chrono, s_difficulty = Facile, s_score = 504, s_time = Some 1\<rparr>]"
    by code_simp
  then obtain s' where s': "dispatch (Timeout 0) ?s = Some s'" by blast
  from gameEnd_table [OF r s' r0]
  have "bestScores s' = specUpdate (bestScores ?s) (finalEntry r0)" by blast
  then have "map_option bestScores (dispatch (Timeout 0) ?s) =
     Some (specUpdate (bestScores ?s) (finalEntry (the (gameEnd (Timeout 0) ?s))))"
    by (simp only: s' r0 option.sel option.map)
  with r g b a show ?thesis by blast
qed

section \<open>The final score\<close>

text \<open>
  When the countdown ends the game, \<^verbatim>\<open>endGame\<close> is the one of the render that has just
  happened: the final score is computed from the current count of matched pairs.
\<close>

lemma loss_reads_current_render:
  assumes "gameState s = Playing" "mode s = Chrono" "timeLeft s = 0"
  shows "gameState (timerEffect s) = Finished \<and>
         matches (timerEffect s) = matches s \<and>
         score (timerEffect s) = calculateScore (mode s) (difficulty s) (matches s) (timeLeft s)"
  using assms by (simp add: timerEffect_def endGame_def Let_def render.defs)

text \<open>
  When the last pair ends the game, \<^verbatim>\<open>endGame\<close> is the one of the render in which the
  second card of the pair was clicked: the final score is computed from the count and
  the time of that render, while the count of the state is one more.
\<close>

lemma win_reads_old_render:
  assumes "2 * (matches s + 1) = length (cards r)"
  shows "gameState (runTimeout (MatchTimeout r i j) s) = Finished \<and>
         matches (runTimeout (MatchTimeout r i j) s) = matches s + 1 \<and>
         score (runTimeout (MatchTimeout r i j) s) =
           calculateScore (mode r) (difficulty r) (matches r) (timeLeft r)"
  using assms by (simp add: Let_def endGame_def)

text \<open>
  C2. At the end of a game the final score should be the score of the count of matched
  pairs current at that moment; on a win, the score of all the pairs. In the game
  \<open>winFacile\<close> all six pairs are found and the count is 6, but the final score is 500,
  the score of five pairs: the score of six pairs is 600.
\<close>

theorem win_scores_one_pair_short:
  "map_option (\<lambda>s. (gameState s, matches s, timeLeft s, score s)) (run winFacile initialState) =
     Some (Finished, 6, 0, 500) \<and>
   calculateScore Normal Facile 6 0 = 600"
  by code_simp

section \<open>Matched cards and matched pairs\<close>

lemma length_markMatched: "length (markMatched i j cs) = length cs"
  by (simp add: markMatched_def)

lemma nth_markMatched:
  "k < length cs \<Longrightarrow>
     markMatched i j cs ! k = (if k = i \<or> k = j then (cs ! k)\<lparr>isMatched := True\<rparr> else cs ! k)"
  by (simp add: markMatched_def nth_enumerate_eq)

lemma markMatched_update:
  assumes "i < length cs" "j < length cs"
  shows "markMatched i j cs = cs[i := (cs ! i)\<lparr>isMatched := True\<rparr>, j := (cs ! j)\<lparr>isMatched := True\<rparr>]"
  using assms by (intro nth_equalityI) (auto simp: length_markMatched nth_markMatched nth_list_update)

lemma filter_update_count:
  assumes "i < length xs" "\<not> P (xs ! i)" "P y"
  shows "length (filter P (xs[i := y])) = Suc (length (filter P xs))"
  using assms
proof (induction xs arbitrary: i)
  case Nil
  then show ?case by simp
next
  case (Cons x xs)
  then show ?case by (cases i) auto
qed

lemma markMatched_count:
  assumes "i < length cs" "j < length cs" "i \<noteq> j" "\<not> isMatched (cs ! i)" "\<not> isMatched (cs ! j)"
  shows "length (filter isMatched (markMatched i j cs)) = length (filter isMatched cs) + 2"
proof -
  let ?c1 = "cs[i := (cs ! i)\<lparr>isMatched := True\<rparr>]"
  have 1: "length (filter isMatched ?c1) = Suc (length (filter isMatched cs))"
    using assms by (intro filter_update_count) simp_all
  have "\<not> isMatched (?c1 ! j)" "j < length ?c1" using assms by simp_all
  then have "length (filter isMatched (?c1[j := (cs ! j)\<lparr>isMatched := True\<rparr>])) =
      Suc (length (filter isMatched ?c1))"
    by (intro filter_update_count) simp_all
  with 1 show ?thesis using assms(1,2) by (simp add: markMatched_update)
qed

text \<open>
  A match timeout that runs on the cards of its own render marks the two compared cards,
  adds one to the count of pairs and changes no other card.
\<close>

lemma runTimeout_match_current:
  assumes "cards r = cards s" "i < length (cards s)" "j < length (cards s)" "i \<noteq> j"
    and "\<not> isMatched (cards s ! i)" "\<not> isMatched (cards s ! j)"
  shows "matches (runTimeout (MatchTimeout r i j) s) = matches s + 1 \<and>
         cards (runTimeout (MatchTimeout r i j) s) = markMatched i j (cards s) \<and>
         length (filter isMatched (cards (runTimeout (MatchTimeout r i j) s))) =
           length (filter isMatched (cards s)) + 2 \<and>
         (\<forall>k < length (cards s).
            cards (runTimeout (MatchTimeout r i j) s) ! k =
              (if k = i \<or> k = j then (cards s ! k)\<lparr>isMatched := True\<rparr> else cards s ! k))"
proof -
  have c: "cards (runTimeout (MatchTimeout r i j) s) = markMatched i j (cards s)"
    using assms(1) by (simp add: Let_def markMatched_def endGame_def)
  have m: "matches (runTimeout (MatchTimeout r i j) s) = matches s + 1"
    by (simp add: Let_def endGame_def)
  show ?thesis using c m markMatched_count [OF assms(2-6)] by (simp add: nth_markMatched)
qed

lemma pairsOk_frame:
  assumes "pairsOk s" "cards s' = cards s" "matches s' = matches s" "timeouts s' = timeouts s"
    and "isChecking s' = isChecking s"
    and "flippedIndexes s' = [] \<or>
         (flippedIndexes s' = flippedIndexes s \<and> (gameState s' = Preview \<or> gameState s \<noteq> Preview))"
  shows "pairsOk s'"
  using assms unfolding pairsOk_def by auto

lemma endGame_pairsOk:
  assumes "pairsOk s" "gameState s \<noteq> Preview \<or> flippedIndexes s = []"
  shows "pairsOk (endGame r w s)"
  using assms(1)
proof (rule pairsOk_frame)
  show "flippedIndexes (endGame r w s) = [] \<or>
      (flippedIndexes (endGame r w s) = flippedIndexes s \<and>
       (gameState (endGame r w s) = Preview \<or> gameState s \<noteq> Preview))"
    using assms(2) by (auto simp: endGame_def Let_def)
qed (simp_all add: endGame_def Let_def)

lemma afterRender_pairsOk:
  assumes "pairsOk s"
  shows "pairsOk (afterRender prev s)"
  using assms by (auto simp: afterRender_def timerEffect_def intro: endGame_pairsOk)

lemma startGame_pairsOk:
  assumes "isPermutation order (2 * pairs (DIFFICULTY_CONFIG (difficulty s)))" "timeouts s = []"
  shows "pairsOk (startGame order s)"
proof -
  from createCards_props [OF assms(1)]
  have "\<forall>c \<in> set (createCards (difficulty s) order). \<not> isMatched c" by blast
  then have "filter isMatched (createCards (difficulty s) order) = []"
    by (simp add: filter_empty_conv)
  then show ?thesis using assms(2) by (simp add: pairsOk_def startGame_def Let_def)
qed

lemma handleCardClick_pairsOk:
  assumes "pairsOk s" "index < length (cards s)" "gameState s = Playing"
  shows "pairsOk (case handleCardClick s index of Inl (e, s') \<Rightarrow> s' | Inr s' \<Rightarrow> s')"
proof (cases "isChecking s \<or> isMatched (cards s ! index) \<or> index \<in> set (flippedIndexes s) \<or>
              length (flippedIndexes s) = 2")
  case True
  then have "handleCardClick s index = Inr s" using assms(2) by (auto simp: handleCardClick_def)
  with assms(1) show ?thesis by simp
next
  case False
  with assms(1) have t: "timeouts s = []" by (simp add: pairsOk_def)
  from assms(1,3) have f: "\<forall>i \<in> set (flippedIndexes s). i < length (cards s) \<and> \<not> isMatched (cards s ! i)"
    by (simp add: pairsOk_def)
  from assms(1) have c: "length (filter isMatched (cards s)) = 2 * matches s"
    by (simp add: pairsOk_def)
  show ?thesis
  proof (cases "length (flippedIndexes s) = 1")
    case True
    then obtain a where a: "flippedIndexes s = [a]" by (cases "flippedIndexes s") auto
    with f False have a': "a < length (cards s)" "\<not> isMatched (cards s ! a)" "a \<noteq> index" by auto
    have "handleCardClick s index =
        Inr (s\<lparr>flippedIndexes := [a, index], isChecking := True,
               timeouts := [if icon (cards s ! a) = icon (cards s ! index)
                            then MatchTimeout (render.truncate s) a index else MismatchTimeout]\<rparr>)"
      using False assms(2) a a'(1) t by (simp add: handleCardClick_def Let_def)
    then show ?thesis using a' assms(2,3) False c
      by (simp add: pairsOk_def render.defs)
  next
    case l: False
    have "handleCardClick s index = Inr (s\<lparr>flippedIndexes := flippedIndexes s @ [index]\<rparr>)"
      using False assms(2) l by (simp add: handleCardClick_def Let_def)
    then show ?thesis using False assms(2,3) t f c by (simp add: pairsOk_def)
  qed
qed

lemma runTimeout_fields:
  "timeouts (runTimeout t s) = timeouts s \<and> isChecking (runTimeout t s) = False \<and>
   flippedIndexes (runTimeout t s) = []"
  by (cases t) (simp_all add: Let_def endGame_def)

lemma runTimeout_pairsOk:
  assumes "pairsOk s" "k < length (timeouts s)"
  shows "pairsOk (runTimeout (timeouts s ! k)
           (s\<lparr>timeouts := take k (timeouts s) @ drop (Suc k) (timeouts s)\<rparr>))"
proof -
  from assms have k: "k = 0" by (simp add: pairsOk_def)
  from assms obtain t where one: "timeouts s = [t]"
    by (cases "timeouts s") (auto simp: pairsOk_def)
  let ?s = "s\<lparr>timeouts := []\<rparr>"
  have s: "s\<lparr>timeouts := take k (timeouts s) @ drop (Suc k) (timeouts s)\<rparr> = ?s"
    by (simp add: k one)
  have t: "timeouts s ! k = t" by (simp add: k one)
  have f: "timeouts (runTimeout t ?s) = []" "isChecking (runTimeout t ?s) = False"
    "flippedIndexes (runTimeout t ?s) = []"
    using runTimeout_fields [of t ?s] by simp_all
  from assms(1) have c0: "length (filter isMatched (cards s)) = 2 * matches s"
    by (simp add: pairsOk_def)
  have "length (filter isMatched (cards (runTimeout t ?s))) = 2 * matches (runTimeout t ?s)"
  proof (cases t)
    case MismatchTimeout
    with c0 show ?thesis by simp
  next
    case (MatchTimeout r i j)
    then have "MatchTimeout r i j \<in> set (timeouts s)" by (simp add: one)
    with assms(1) have p: "cards r = cards ?s" "i < length (cards ?s)" "j < length (cards ?s)" "i \<noteq> j"
      "\<not> isMatched (cards ?s ! i)" "\<not> isMatched (cards ?s ! j)"
      by (auto simp: pairsOk_def)
    from runTimeout_match_current [OF p]
    have "length (filter isMatched (cards (runTimeout (MatchTimeout r i j) ?s))) =
        length (filter isMatched (cards ?s)) + 2"
      and "matches (runTimeout (MatchTimeout r i j) ?s) = matches ?s + 1"
      by blast+
    with c0 show ?thesis unfolding MatchTimeout by (simp del: runTimeout.simps)
  qed
  with f have "pairsOk (runTimeout t ?s)" unfolding pairsOk_def by simp
  then show ?thesis by (simp only: s t)
qed

lemma handle_pairsOk:
  assumes "handle e s = Some s'" "pairsOk s" "\<forall>order. e = StartGame order \<longrightarrow> timeouts s = []"
  shows "pairsOk s'"
proof (cases e)
  case (CardClick index)
  from assms(1) have i: "index < length (cards s)"
    and s': "s' = (case onCardClick s index of Inl (e, s') \<Rightarrow> s' | Inr s' \<Rightarrow> s')"
    unfolding CardClick by (simp_all split: if_splits)
  show ?thesis
  proof (cases "gameState s = Playing")
    case True
    have eq: "onCardClick s index = handleCardClick s index"
      using True by (simp add: onCardClick_def)
    show ?thesis unfolding s' eq using assms(2) i True by (rule handleCardClick_pairsOk)
  next
    case False
    have eq: "onCardClick s index = Inr s" using False by (simp add: onCardClick_def)
    show ?thesis unfolding s' eq using assms(2) by simp
  qed
next
  case (Timeout k)
  from assms(1) have k: "k < length (timeouts s)"
    and s': "s' = runTimeout (timeouts s ! k)
           (s\<lparr>timeouts := take k (timeouts s) @ drop (Suc k) (timeouts s)\<rparr>)"
    unfolding Timeout by (simp_all del: runTimeout.simps split: if_splits)
  show ?thesis unfolding s' using assms(2) k by (rule runTimeout_pairsOk)
next
  case (StartGame order)
  from assms(1) have p: "isPermutation order (2 * pairs (DIFFICULTY_CONFIG (difficulty s)))"
    and s': "s' = startGame order s"
    unfolding StartGame by (simp_all split: if_splits)
  from StartGame assms(3) have "timeouts s = []" by simp
  with p show ?thesis unfolding s' by (rule startGame_pairsOk)
next
  case (SelectMode m)
  from assms(1) have s': "s' = s\<lparr>mode := m\<rparr>" unfolding SelectMode by (simp split: if_splits)
  show ?thesis unfolding s' by (rule pairsOk_frame [OF assms(2)]) simp_all
next
  case (SelectDifficulty d)
  from assms(1) have s': "s' = s\<lparr>difficulty := d\<rparr>"
    unfolding SelectDifficulty by (simp split: if_splits)
  show ?thesis unfolding s' by (rule pairsOk_frame [OF assms(2)]) simp_all
next
  case PreviewTimeout
  from assms(1) have s': "s' = s\<lparr>gameState := Playing, flippedIndexes := []\<rparr>"
    unfolding PreviewTimeout by (simp split: if_splits)
  show ?thesis unfolding s' by (rule pairsOk_frame [OF assms(2)]) simp_all
next
  case Tick
  from assms(1) have s': "s' = s\<lparr>timeLeft := timeLeft s - 1\<rparr>"
    unfolding Tick by (simp split: if_splits)
  show ?thesis unfolding s' by (rule pairsOk_frame [OF assms(2)]) simp_all
next
  case Rejouer
  from assms(1) have s': "s' = s\<lparr>gameState := Setup\<rparr>" and g: "gameState s = Finished"
    unfolding Rejouer by (simp_all split: if_splits)
  show ?thesis unfolding s' by (rule pairsOk_frame [OF assms(2)]) (simp_all add: g)
qed

lemma reachableFresh_pairsOk:
  assumes "reachableFresh s"
  shows "pairsOk s"
  using assms
proof (induction rule: reachableFresh.induct)
  case (mountedFresh table)
  show ?case by (simp add: initialState_def pairsOk_def)
next
  case (stepFresh s e s')
  from stepFresh.hyps(2) obtain h where h: "handle e s = Some h" and s': "s' = afterRender s h"
    by (auto simp: dispatch_def)
  from handle_pairsOk [OF h stepFresh.IH stepFresh.hyps(3)] show ?case
    unfolding s' by (rule afterRender_pairsOk)
qed

text \<open>
  As long as no game is started while a timeout is pending, the matched cards are twice
  the matched pairs in every state.
\<close>

lemma matched_cards_twice_matches:
  assumes "reachableFresh s"
  shows "length (filter isMatched (cards s)) = 2 * matches s"
  using reachableFresh_pairsOk [OF assms] by (simp add: pairsOk_def)

text \<open>
  C10. The number of matched cards should be twice the count of matched pairs in every
  state after the start of a game. In the game \<open>lossThenReplay\<close> the timeout of the lost
  game runs in the preview of the next one: before it runs, the new deck (in reverse
  order) has no matched card and the count is 0; after it, the deck is the one of the
  lost game with four matched cards, and the count is 1.
\<close>

theorem stale_timeout_restores_deck:
  "map_option
     (\<lambda>s. (gameState s, matches s, length (filter isMatched (cards s)), map cardId (cards s)))
     (run (butlast lossThenReplay) initialState) = Some (Preview, 0, 0, rev [0..<24]) \<and>
   map_option
     (\<lambda>s. (gameState s, matches s, length (filter isMatched (cards s)), map cardId (cards s)))
     (run lossThenReplay initialState) = Some (Preview, 1, 4, [0..<24])"
  by code_simp

end
